theory Spec2Isabelle
  imports Main
begin

section \<open>Values and errors\<close>

text \<open>
  The pipeline of \<^verbatim>\<open>helper_funcs.py\<close> handles three kinds of Python values in a CSV
  record: \<^verbatim>\<open>None\<close>, a \<^verbatim>\<open>str\<close> and (for the cylinders column) an \<^verbatim>\<open>int\<close>.
  Text is modelled as \<^typ>\<open>string\<close>, one \<^typ>\<open>char\<close> per code point, which covers the
  code points below 256. In that range the white space removed by \<^verbatim>\<open>str.strip()\<close> and
  the decimal digits matched by the pattern \<^verbatim>\<open>\d\<close> are the ones written out below.
  Python integers are unbounded, hence \<^typ>\<open>int\<close>.
\<close>

datatype pyval = PyNone | PyStr string | PyInt int

datatype error =
    KeyError string
  | AttributeError
  | ValueError
  | RuntimeError
  | StorageError

definition of_str_opt :: "string option \<Rightarrow> pyval" where
  "of_str_opt v = (case v of None \<Rightarrow> PyNone | Some s \<Rightarrow> PyStr s)"

definition of_int_opt :: "int option \<Rightarrow> pyval" where
  "of_int_opt v = (case v of None \<Rightarrow> PyNone | Some i \<Rightarrow> PyInt i)"

section \<open>Field normalizer\<close>

definition is_space :: "char \<Rightarrow> bool" where
  "is_space c =
     (let n = (of_char c :: nat)
      in (9 \<le> n \<and> n \<le> 13) \<or> (28 \<le> n \<and> n \<le> 32) \<or> n = 133 \<or> n = 160)"

definition is_digit :: "char \<Rightarrow> bool" where
  "is_digit c = (let n = (of_char c :: nat) in 48 \<le> n \<and> n \<le> 57)"

definition digit_value :: "char \<Rightarrow> int" where
  "digit_value c = int (of_char c) - 48"

text \<open>\<^verbatim>\<open>str.strip()\<close>: white space is removed from both ends.\<close>

definition strip :: "string \<Rightarrow> string" where
  "strip s = rev (dropWhile is_space (rev (dropWhile is_space s)))"

text \<open>
  \<^verbatim>\<open>
  def strip_strings_and_replace_empty_strings_with_none(input_str: str) -> str:
      input_str = input_str.strip()
      return input_str if input_str != "" else None
  \<close>
\<close>

definition strip_strings_and_replace_empty_strings_with_none :: "string \<Rightarrow> string option" where
  "strip_strings_and_replace_empty_strings_with_none input_str =
     (let input_str = strip input_str
      in if input_str \<noteq> [] then Some input_str else None)"

text \<open>
  The same function called on a value that may be \<^verbatim>\<open>None\<close>: the attribute lookup
  \<^verbatim>\<open>input_str.strip\<close> fails on \<^verbatim>\<open>None\<close> with an AttributeError.
\<close>

definition call_strip_strings_and_replace_empty_strings_with_none ::
  "string option \<Rightarrow> error + string option" where
  "call_strip_strings_and_replace_empty_strings_with_none v =
     (case v of
        None \<Rightarrow> Inl AttributeError
      | Some s \<Rightarrow> Inr (strip_strings_and_replace_empty_strings_with_none s))"

text \<open>
  \<^verbatim>\<open>int(...)\<close> on a run of decimal digits. The value is unbounded, but the
  interpreter refuses a string of more than 4300 digits (its default limit on the
  conversion between integers and decimal strings) with a ValueError; leading zeros count.
\<close>

definition int_of_digits :: "string \<Rightarrow> int" where
  "int_of_digits ds = foldl (\<lambda>a c. 10 * a + digit_value c) 0 ds"

definition int_max_str_digits :: nat where
  "int_max_str_digits = 4300"

definition int_of_str :: "string \<Rightarrow> error + int" where
  "int_of_str ds =
     (if length ds > int_max_str_digits then Inl ValueError else Inr (int_of_digits ds))"

text \<open>
  \<^verbatim>\<open>
  def extract_cylinders_int_value_from_cylinders_str(cylinders_str: str) -> int:
      if cylinders_str is None:
          return None
      pat = r"(\d+)"
      match_obj = match(pat, cylinders_str)
      if match_obj:
          return int(match_obj.group(1))
      else:
          return None
  \<close>
  \<^verbatim>\<open>re.match\<close> anchors the pattern at position 0 and \<^verbatim>\<open>\d+\<close> is greedy, so group 1
  is the longest run of digits at the start of the string; there is no match when that
  run is empty.
\<close>

definition extract_cylinders_int_value_from_cylinders_str ::
  "string option \<Rightarrow> error + int option" where
  "extract_cylinders_int_value_from_cylinders_str cylinders_str =
     (case cylinders_str of
        None \<Rightarrow> Inr None
      | Some s \<Rightarrow>
          (let group1 = takeWhile is_digit s
           in if group1 \<noteq> [] then
                (case int_of_str group1 of
                   Inl e \<Rightarrow> Inl e
                 | Inr i \<Rightarrow> Inr (Some i))
              else Inr None))"

text \<open>
  The decimal numeral of a natural number, as \<^verbatim>\<open>str(n)\<close> writes it. It is not part
  of the program; the statements about the leading integer of a cylinders string use it.
\<close>

fun decimal :: "nat \<Rightarrow> string" where
  "decimal n =
     (if n < 10 then [char_of (48 + n)]
      else decimal (n div 10) @ [char_of (48 + n mod 10)])"

declare decimal.simps [simp del]

section \<open>Streaming record reader\<close>

text \<open>
  A record is a Python \<^verbatim>\<open>dict\<close>, kept as an association list in insertion order.
  \<^verbatim>\<open>d[k] = v\<close> replaces the value of a key that is present and appends a new key
  otherwise; \<^verbatim>\<open>d[k]\<close> raises KeyError on a key that is not present.
\<close>

type_synonym 'v dict = "(string \<times> 'v) list"

fun dict_set :: "string \<Rightarrow> 'v \<Rightarrow> 'v dict \<Rightarrow> 'v dict" where
  "dict_set k v [] = [(k, v)]"
| "dict_set k v ((k', v') # d) = (if k' = k then (k, v) # d else (k', v') # dict_set k v d)"

definition dict_get :: "'v dict \<Rightarrow> string \<Rightarrow> error + 'v" where
  "dict_get d k = (case map_of d k of None \<Rightarrow> Inl (KeyError k) | Some v \<Rightarrow> Inr v)"

text \<open>\<^verbatim>\<open>dict(pairs)\<close>: the pairs are stored one after the other.\<close>

definition dict_of_pairs :: "(string \<times> 'v) list \<Rightarrow> 'v dict" where
  "dict_of_pairs ps = foldl (\<lambda>d (k, v). dict_set k v d) [] ps"

text \<open>
  The body of the \<^verbatim>\<open>for\<close> loop of the generator, for one line of the CSV reader:
  \<^verbatim>\<open>
  line = map(strip_strings_and_replace_empty_strings_with_none, line)
  line_record_dict = dict(zip(csv_headers, line))
  line_record_dict["cylinders"] = extract_cylinders_int_value_from_cylinders_str(
      line_record_dict["cylinders"])
  yield line_record_dict
  \<close>
  \<^verbatim>\<open>zip\<close> stops at the shorter of its two arguments. The read of the key
  \<^verbatim>\<open>"cylinders"\<close> raises KeyError when the key is missing, and the ValueError of
  \<^verbatim>\<open>int\<close> leaves the generator as well.
\<close>

definition normalize_line :: "string list \<Rightarrow> string list \<Rightarrow> error + pyval dict" where
  "normalize_line csv_headers line =
     (let line = map strip_strings_and_replace_empty_strings_with_none line;
          line_record_dict = dict_of_pairs (zip csv_headers line)
      in case dict_get line_record_dict ''cylinders'' of
           Inl e \<Rightarrow> Inl e
         | Inr c \<Rightarrow>
             (case extract_cylinders_int_value_from_cylinders_str c of
                Inl e \<Rightarrow> Inl e
              | Inr cylinders \<Rightarrow>
                  Inr (dict_set ''cylinders'' (of_int_opt cylinders)
                         (map (\<lambda>(k, v). (k, of_str_opt v)) line_record_dict))))"

text \<open>
  The generator as the list of what successive \<^verbatim>\<open>next()\<close> calls produce: a record
  (\<open>Inr\<close>) or a raised error (\<open>Inl\<close>), after which the generator is finished. The end of
  the list is StopIteration.
\<close>

fun records_from :: "string list \<Rightarrow> string list list \<Rightarrow> (error + pyval dict) list" where
  "records_from csv_headers [] = []"
| "records_from csv_headers (line # lines) =
     (case normalize_line csv_headers line of
        Inl e \<Rightarrow> [Inl e]
      | Inr d \<Rightarrow> Inr d # records_from csv_headers lines)"

text \<open>
  The argument is the content of the CSV entry as \<^verbatim>\<open>csv.reader\<close> delivers it, one list
  of cells per line, the header line first. Opening the archive, decoding and splitting
  into cells are library code outside the repository. On an entry without any line,
  \<^verbatim>\<open>next(csv_reader)\<close> raises StopIteration inside the generator, which Python turns
  into a RuntimeError.
\<close>

definition create_csv_records_iterator_from_zip_file ::
  "string list list \<Rightarrow> (error + pyval dict) list" where
  "create_csv_records_iterator_from_zip_file csv =
     (case csv of
        [] \<Rightarrow> [Inl RuntimeError]
      | csv_headers # lines \<Rightarrow> records_from csv_headers lines)"

section \<open>Batch inserter and migration driver\<close>

text \<open>
  What the driver writes to standard output, one constructor per \<^verbatim>\<open>print\<close> call of
  the source. The validator's error value is of type \<^typ>\<open>'e\<close>, a validated record of
  type \<^typ>\<open>'r\<close>.
\<close>

datatype 'e printed =
    Progress int
  | PrintError 'e
  | PrintRow "pyval dict"
  | PrintSeparator
  | StartInsert int
  | FinishInsert int int
  | FinalParsed int
  | FinalInserted int

text \<open>
  The local variables of \<^verbatim>\<open>migrate_craigslist_records_csv_from_zip_to_db\<close>, the
  standard output, and the batches handed to
  \<^verbatim>\<open>insert_batch_of_craigslist_vehicle_records\<close> in call order.
\<close>

record ('e, 'r) state =
  rows_count_in_current_batch :: int
  total_rows_parsed :: int
  total_rows_inserted :: int
  current_batch :: "'r list"
  insert_calls :: "'r list list"
  stdout :: "'e printed list"

text \<open>
  Leaving the \<^verbatim>\<open>while\<close> loop: by \<^verbatim>\<open>break\<close>, or by an exception that no handler
  of the function catches.
\<close>

datatype ('e, 'r) loop_exit =
    Break "('e, 'r) state"
  | Raise error "('e, 'r) state"

datatype ('e, 'r) outcome =
    Returned "('e, 'r) state"
  | Raised error "('e, 'r) state"

definition print :: "'e printed \<Rightarrow> ('e, 'r) state \<Rightarrow> ('e, 'r) state" where
  "print x st = st\<lparr>stdout := stdout st @ [x]\<rparr>"

text \<open>
  \<^verbatim>\<open>
  def insert_batch_of_craigslist_vehicle_records(
      batch_of_craigslist_vehicle_records, db_engine=db_engine):
      with Session(db_engine) as session:
          session.add_all(batch_of_craigslist_vehicle_records)
          session.commit()
  \<close>
  The database is outside the repository: \<open>commit_ok\<close> says for which batches the
  commit succeeds. The call is recorded; a failing commit raises.
\<close>

definition insert_batch_of_craigslist_vehicle_records ::
  "('r list \<Rightarrow> bool) \<Rightarrow> 'r list \<Rightarrow> ('e, 'r) state \<Rightarrow> error \<times> ('e, 'r) state + ('e, 'r) state" where
  "insert_batch_of_craigslist_vehicle_records commit_ok batch st =
     (let st = st\<lparr>insert_calls := insert_calls st @ [batch]\<rparr>
      in if commit_ok batch then Inr st else Inl (StorageError, st))"

text \<open>
  \<^verbatim>\<open>max_rows_to_parse and total_rows_parsed >= max_rows_to_parse\<close>: \<^verbatim>\<open>None\<close> and
  \<^verbatim>\<open>0\<close> are false in Python.
\<close>

definition limit_reached :: "int option \<Rightarrow> int \<Rightarrow> bool" where
  "limit_reached max_rows_to_parse parsed =
     (case max_rows_to_parse of
        None \<Rightarrow> False
      | Some m \<Rightarrow> m \<noteq> 0 \<and> parsed \<ge> m)"

text \<open>
  The three statements of the flush, used in the loop and after it:
  \<^verbatim>\<open>
  print(f"starting batch insertion of {batch_size} records")
  insert_batch_of_craigslist_vehicle_records(current_batch)
  total_rows_inserted += rows_count_in_current_batch
  print(f"finished batch insertion of {batch_size} records, total_rows_inserted: ...")
  \<close>
\<close>

definition flush ::
  "('r list \<Rightarrow> bool) \<Rightarrow> int \<Rightarrow> ('e, 'r) state \<Rightarrow> error \<times> ('e, 'r) state + ('e, 'r) state" where
  "flush commit_ok batch_size st =
     (case insert_batch_of_craigslist_vehicle_records commit_ok (current_batch st)
             (print (StartInsert batch_size) st) of
        Inl raised \<Rightarrow> Inl raised
      | Inr st \<Rightarrow>
          (let st = st\<lparr>total_rows_inserted :=
                       total_rows_inserted st + rows_count_in_current_batch st\<rparr>
           in Inr (print (FinishInsert batch_size (total_rows_inserted st)) st)))"

text \<open>
  The \<^verbatim>\<open>while True\<close> loop. \<open>it\<close> is what is left of the generator. A loop that never
  ends has the value \<open>None\<close>.
\<close>

partial_function (option) migrate_loop ::
  "(pyval dict \<Rightarrow> 'e + 'r) \<Rightarrow> ('r list \<Rightarrow> bool) \<Rightarrow> int \<Rightarrow> int option \<Rightarrow>
   (error + pyval dict) list \<Rightarrow> ('e, 'r) state \<Rightarrow> ('e, 'r) loop_exit option" where
  "migrate_loop validate commit_ok batch_size max_rows_to_parse it st =
     (let st = print (Progress (total_rows_parsed st)) st
      in if rows_count_in_current_batch st < batch_size then
           (case it of
              [] \<Rightarrow> Some (Break st)
            | Inl e # _ \<Rightarrow> Some (Raise e st)
            | Inr current_record_dict # it' \<Rightarrow>
                (case validate current_record_dict of
                   Inr craiglist_vehicle_record \<Rightarrow>
                     migrate_loop validate commit_ok batch_size max_rows_to_parse it'
                       (st\<lparr>current_batch := current_batch st @ [craiglist_vehicle_record],
                           rows_count_in_current_batch := rows_count_in_current_batch st + 1,
                           total_rows_parsed := total_rows_parsed st + 1\<rparr>)
                 | Inl e \<Rightarrow>
                     migrate_loop validate commit_ok batch_size max_rows_to_parse it'
                       (print PrintSeparator
                         (print (PrintRow current_record_dict) (print (PrintError e) st)))))
         else
           (case flush commit_ok batch_size st of
              Inl (e, st) \<Rightarrow> Some (Raise e st)
            | Inr st \<Rightarrow>
                if limit_reached max_rows_to_parse (total_rows_parsed st) then Some (Break st)
                else migrate_loop validate commit_ok batch_size max_rows_to_parse it
                       (st\<lparr>rows_count_in_current_batch := 0, current_batch := []\<rparr>)))"

declare migrate_loop.simps [code]

definition initial_state :: "('e, 'r) state" where
  "initial_state =
     \<lparr>rows_count_in_current_batch = 0, total_rows_parsed = 0, total_rows_inserted = 0,
      current_batch = [], insert_calls = [], stdout = []\<rparr>"

text \<open>
  The code after the loop: the flush of a non-empty \<^verbatim>\<open>current_batch\<close> and the two
  final prints.
\<close>

definition after_loop :: "('r list \<Rightarrow> bool) \<Rightarrow> int \<Rightarrow> ('e, 'r) state \<Rightarrow> ('e, 'r) outcome" where
  "after_loop commit_ok batch_size st =
     (case (if current_batch st \<noteq> [] then flush commit_ok batch_size st else Inr st) of
        Inl (e, st) \<Rightarrow> Raised e st
      | Inr st \<Rightarrow>
          Returned (print (FinalInserted (total_rows_inserted st))
                     (print (FinalParsed (total_rows_parsed st)) st)))"

text \<open>The loop followed by the code after it, from any state of the loop.\<close>

definition loop_then_after ::
  "(pyval dict \<Rightarrow> 'e + 'r) \<Rightarrow> ('r list \<Rightarrow> bool) \<Rightarrow> int \<Rightarrow> int option \<Rightarrow>
   (error + pyval dict) list \<Rightarrow> ('e, 'r) state \<Rightarrow> ('e, 'r) outcome option" where
  "loop_then_after validate commit_ok batch_size max_rows_to_parse it st =
     (case migrate_loop validate commit_ok batch_size max_rows_to_parse it st of
        None \<Rightarrow> None
      | Some (Raise e st) \<Rightarrow> Some (Raised e st)
      | Some (Break st) \<Rightarrow> Some (after_loop commit_ok batch_size st))"

text \<open>
  The driver. \<open>validate\<close> stands for \<^verbatim>\<open>validate_craigslist_vehicle_record_dict\<close>,
  whose models are outside the repository: it returns the validated record or the
  validation error that the driver catches.
\<close>

definition migrate_craigslist_records_csv_from_zip_to_db ::
  "(pyval dict \<Rightarrow> 'e + 'r) \<Rightarrow> ('r list \<Rightarrow> bool) \<Rightarrow> int \<Rightarrow> int option \<Rightarrow>
   string list list \<Rightarrow> ('e, 'r) outcome option" where
  "migrate_craigslist_records_csv_from_zip_to_db validate commit_ok batch_size max_rows_to_parse csv =
     (let csv_lines_iterator = create_csv_records_iterator_from_zip_file csv
      in loop_then_after validate commit_ok batch_size max_rows_to_parse
           csv_lines_iterator initial_state)"

fun final_state :: "('e, 'r) outcome \<Rightarrow> ('e, 'r) state" where
  "final_state (Returned st) = st"
| "final_state (Raised e st) = st"

section \<open>Notions used in the statements\<close>

text \<open>The validated records of a sequence of rows, in the order of the rows.\<close>

fun valid_records :: "(pyval dict \<Rightarrow> 'e + 'r) \<Rightarrow> pyval dict list \<Rightarrow> 'r list" where
  "valid_records validate [] = []"
| "valid_records validate (d # ds) =
     (case validate d of
        Inr r \<Rightarrow> r # valid_records validate ds
      | Inl e \<Rightarrow> valid_records validate ds)"

text \<open>
  What the driver prints for the rows that fail validation, in the order of the rows:
  the error, the row and the separator.
\<close>

fun failure_prints :: "(pyval dict \<Rightarrow> 'e + 'r) \<Rightarrow> pyval dict list \<Rightarrow> 'e printed list" where
  "failure_prints validate [] = []"
| "failure_prints validate (d # ds) =
     (case validate d of
        Inr r \<Rightarrow> failure_prints validate ds
      | Inl e \<Rightarrow> PrintError e # PrintRow d # PrintSeparator # failure_prints validate ds)"

fun is_validation_print :: "'e printed \<Rightarrow> bool" where
  "is_validation_print (PrintError e) = True"
| "is_validation_print (PrintRow d) = True"
| "is_validation_print PrintSeparator = True"
| "is_validation_print x = False"

definition validation_log :: "'e printed list \<Rightarrow> 'e printed list" where
  "validation_log out = filter is_validation_print out"

text \<open>A list cut into consecutive pieces of \<open>n\<close> elements, the last one possibly shorter.\<close>

function chunks :: "nat \<Rightarrow> 'a list \<Rightarrow> 'a list list" where
  "chunks n xs = (if n = 0 \<or> xs = [] then [] else take n xs # chunks n (drop n xs))"
  by pat_completeness auto
termination
  by (relation "measure (\<lambda>(n, xs). length xs)") auto

declare chunks.simps [simp del]

text \<open>The rows that the generator yields before it ends or raises.\<close>

fun yielded :: "(error + pyval dict) list \<Rightarrow> pyval dict list" where
  "yielded [] = []"
| "yielded (Inl e # it) = []"
| "yielded (Inr d # it) = d # yielded it"

text \<open>
  What a run that started in state \<open>st\<close> on the sequence \<open>it\<close> and ended in state \<open>st'\<close>
  has done with the first \<open>k\<close> rows of \<open>it\<close>: the rows that validate are the ones
  counted, only their records were added to the inserted batches, and the rows that fail
  validation are the ones logged, each with its error.
\<close>

definition consumed ::
  "(pyval dict \<Rightarrow> 'e + 'r) \<Rightarrow> (error + pyval dict) list \<Rightarrow> nat \<Rightarrow>
   ('e, 'r) state \<Rightarrow> ('e, 'r) state \<Rightarrow> bool" where
  "consumed validate it k st st' =
     (k \<le> length (yielded it)
      \<and> total_rows_parsed st' =
          total_rows_parsed st + int (length (valid_records validate (take k (yielded it))))
      \<and> validation_log (stdout st') =
          validation_log (stdout st) @ failure_prints validate (take k (yielded it))
      \<and> set (concat (insert_calls st')) \<subseteq>
          set (concat (insert_calls st)) \<union> set (current_batch st)
            \<union> set (valid_records validate (take k (yielded it))))"

text \<open>
  A validator for the concrete runs below: it accepts a row whose cylinders value is an
  integer and rejects any other row.
\<close>

definition cylinders_required :: "pyval dict \<Rightarrow> string + pyval dict" where
  "cylinders_required d =
     (case map_of d ''cylinders'' of
        Some (PyInt n) \<Rightarrow> Inr d
      | _ \<Rightarrow> Inl ''cylinders: an integer is required'')"

text \<open>The state changes of one pass through the loop, named for the proofs.\<close>

definition progress :: "('e, 'r) state \<Rightarrow> ('e, 'r) state" where
  "progress st = print (Progress (total_rows_parsed st)) st"

definition accept :: "'r \<Rightarrow> ('e, 'r) state \<Rightarrow> ('e, 'r) state" where
  "accept r st =
     (progress st)\<lparr>current_batch := current_batch st @ [r],
       rows_count_in_current_batch := rows_count_in_current_batch st + 1,
       total_rows_parsed := total_rows_parsed st + 1\<rparr>"

definition reject :: "'e \<Rightarrow> pyval dict \<Rightarrow> ('e, 'r) state \<Rightarrow> ('e, 'r) state" where
  "reject e d st = print PrintSeparator (print (PrintRow d) (print (PrintError e) (progress st)))"

definition called :: "int \<Rightarrow> ('e, 'r) state \<Rightarrow> ('e, 'r) state" where
  "called batch_size st =
     (print (StartInsert batch_size) st)\<lparr>insert_calls := insert_calls st @ [current_batch st]\<rparr>"

definition flushed :: "int \<Rightarrow> ('e, 'r) state \<Rightarrow> ('e, 'r) state" where
  "flushed batch_size st =
     print (FinishInsert batch_size (total_rows_inserted st + rows_count_in_current_batch st))
       ((called batch_size st)\<lparr>total_rows_inserted :=
           total_rows_inserted st + rows_count_in_current_batch st\<rparr>)"

definition reset :: "('e, 'r) state \<Rightarrow> ('e, 'r) state" where
  "reset st = st\<lparr>rows_count_in_current_batch := 0, current_batch := []\<rparr>"

definition final_prints :: "('e, 'r) state \<Rightarrow> ('e, 'r) state" where
  "final_prints st =
     print (FinalInserted (total_rows_inserted st)) (print (FinalParsed (total_rows_parsed st)) st)"

section \<open>Properties of the field normalizer\<close>

lemma dropWhile_rstrip:
  assumes "u = [] \<or> \<not> P (hd u)"
  shows "dropWhile P (rev (dropWhile P (rev u))) = rev (dropWhile P (rev u))"
proof -
  define t where "t = rev (dropWhile P (rev u))"
  have "rev (takeWhile P (rev u) @ dropWhile P (rev u)) = t @ rev (takeWhile P (rev u))"
    unfolding t_def by (rule rev_append)
  then have u: "u = t @ rev (takeWhile P (rev u))"
    by (simp only: takeWhile_dropWhile_id rev_rev_ident)
  have "dropWhile P t = t"
  proof (cases t)
    case Nil
    then show ?thesis by simp
  next
    case (Cons a as)
    with u have "hd u = a" by (metis append_Cons list.sel(1))
    moreover from Cons u have "u \<noteq> []" by auto
    ultimately have "\<not> P a" using assms by auto
    with Cons show ?thesis by simp
  qed
  then show ?thesis by (simp add: t_def)
qed

lemma dropWhile_strip: "dropWhile is_space (strip s) = strip s"
proof -
  have "dropWhile is_space s = [] \<or> \<not> is_space (hd (dropWhile is_space s))"
    using hd_dropWhile [of is_space s] by blast
  then show ?thesis
    unfolding strip_def by (rule dropWhile_rstrip)
qed

lemma strip_idem: "strip (strip s) = strip s"
proof -
  have "strip (strip s) = rev (dropWhile is_space (rev (strip s)))"
    by (simp add: strip_def [of "strip s"] dropWhile_strip)
  also have "\<dots> = strip s"
    by (simp add: strip_def)
  finally show ?thesis .
qed

lemma map_of_dict_set: "map_of (dict_set k v d) = (map_of d)(k \<mapsto> v)"
  by (induction d) (auto)

lemma keys_dict_set: "fst ` set (dict_set k v d) = insert k (fst ` set d)"
  using arg_cong [OF map_of_dict_set, of dom k v d] by (simp add: dom_map_of_conv_image_fst)

lemma map_of_foldl_dict_set:
  "map_of (foldl (\<lambda>d (k, v). dict_set k v d) d ps) = map_of d ++ map_of (rev ps)"
  by (induction ps arbitrary: d) (auto simp: map_of_dict_set)

lemma map_of_dict_of_pairs: "map_of (dict_of_pairs ps) = map_of (rev ps)"
  by (simp add: dict_of_pairs_def map_of_foldl_dict_set)

lemma keys_dict_of_pairs: "fst ` set (dict_of_pairs ps) = fst ` set ps"
  using arg_cong [OF map_of_dict_of_pairs, of dom ps] by (simp add: dom_map_of_conv_image_fst)

lemma int_of_digits_snoc: "int_of_digits (ds @ [c]) = 10 * int_of_digits ds + digit_value c"
  by (simp add: int_of_digits_def)

lemma zip_take_right: "zip xs (take (length xs) ys) = zip xs ys"
proof (induction xs arbitrary: ys)
  case Nil
  show ?case by simp
next
  case (Cons x xs)
  then show ?case by (cases ys) simp_all
qed

lemma fst_set_zip: "fst ` set (zip xs ys) = set (take (length ys) xs)"
proof (induction xs arbitrary: ys)
  case Nil
  show ?case by simp
next
  case (Cons x xs)
  then show ?case by (cases ys) simp_all
qed

lemma is_digit_char_of: "(k::nat) < 10 \<Longrightarrow> is_digit (char_of (48 + k))"
  by (simp add: is_digit_def)

lemma digit_value_char_of: "(k::nat) < 10 \<Longrightarrow> digit_value (char_of (48 + k)) = int k"
  by (simp add: digit_value_def)

lemma decimal_digits: "decimal n \<noteq> [] \<and> (\<forall>c\<in>set (decimal n). is_digit c)"
proof (induction n rule: decimal.induct)
  case (1 n)
  show ?case
  proof (cases "n < 10")
    case True
    then show ?thesis by (subst decimal.simps, subst decimal.simps) (simp add: is_digit_char_of)
  next
    case False
    with 1 show ?thesis
      by (subst decimal.simps, subst decimal.simps) (simp add: is_digit_char_of)
  qed
qed

lemma int_of_digits_decimal: "int_of_digits (decimal n) = int n"
proof (induction n rule: decimal.induct)
  case (1 n)
  show ?case
  proof (cases "n < 10")
    case True
    then show ?thesis
      by (subst decimal.simps) (simp add: int_of_digits_def digit_value_char_of)
  next
    case False
    with 1 have "int_of_digits (decimal (n div 10)) = int (n div 10)" by simp
    moreover have "10 * int (n div 10) + int (n mod 10) = int n" by presburger
    ultimately show ?thesis
      using False by (subst decimal.simps) (simp add: int_of_digits_snoc digit_value_char_of)
  qed
qed

lemma leading_digit_run:
  assumes "\<forall>c\<in>set ds. is_digit c" and "rest = [] \<or> \<not> is_digit (hd rest)"
  shows "takeWhile is_digit (ds @ rest) = ds"
proof -
  from assms(2) have "takeWhile is_digit rest = []"
    by (cases rest) auto
  with assms(1) show ?thesis
    by simp
qed

lemma extract_leading_digits:
  assumes "ds \<noteq> []" and "\<forall>c\<in>set ds. is_digit c" and "rest = [] \<or> \<not> is_digit (hd rest)"
  shows "extract_cylinders_int_value_from_cylinders_str (Some (ds @ rest))
    = (if length ds > 4300 then Inl ValueError else Inr (Some (int_of_digits ds)))"
  using assms(1) leading_digit_run [OF assms(2,3)]
  by (simp add: extract_cylinders_int_value_from_cylinders_str_def int_of_str_def
      int_max_str_digits_def)

lemma extract_raises_only_ValueError:
  "extract_cylinders_int_value_from_cylinders_str c = Inl e \<Longrightarrow> e = ValueError"
  by (auto simp: extract_cylinders_int_value_from_cylinders_str_def int_of_str_def Let_def
      split: option.splits if_splits)

lemma not_digit_space: "'' cylinders'' = [] \<or> \<not> is_digit (hd '' cylinders'')"
  by (simp add: is_digit_def)

lemma length_decimal: "n < 10 ^ k \<Longrightarrow> 0 < k \<Longrightarrow> length (decimal n) \<le> k"
proof (induction n arbitrary: k rule: decimal.induct)
  case (1 n)
  show ?case
  proof (cases "n < 10")
    case True
    with "1.prems" show ?thesis
      by (subst decimal.simps) simp
  next
    case False
    from "1.prems" obtain j where k: "k = Suc j"
      by (cases k) auto
    with "1.prems" False have j: "0 < j"
      by (cases j) auto
    from "1.prems" k have "n div 10 < 10 ^ j"
      by (simp add: less_mult_imp_div_less mult.commute)
    from "1.IH" [OF False this j] k False show ?thesis
      by (subst decimal.simps) simp
  qed
qed

lemma long_digit_run_raises:
  assumes "4300 < n"
  shows "extract_cylinders_int_value_from_cylinders_str
           (Some (replicate n CHR ''9'' @ '' cylinders'')) = Inl ValueError"
proof -
  from assms have "replicate n CHR ''9'' \<noteq> []"
    by auto
  moreover have "\<forall>c\<in>set (replicate n CHR ''9''). is_digit c"
    by (simp add: is_digit_def)
  ultimately show ?thesis
    using assms extract_leading_digits [OF _ _ not_digit_space, of "replicate n CHR ''9''"]
    by simp
qed

text \<open>
  Claim C6 as stated fails on a digit run that is too long for \<^verbatim>\<open>int\<close>: on 4301
  nines followed by \<^verbatim>\<open>" cylinders"\<close> the function raises ValueError instead of
  returning the integer.
\<close>

theorem long_digit_run_counterexample:
  "extract_cylinders_int_value_from_cylinders_str
     (Some (replicate 4301 CHR ''9'' @ '' cylinders'')) = Inl ValueError
   \<and> extract_cylinders_int_value_from_cylinders_str
       (Some (replicate 4301 CHR ''9'' @ '' cylinders''))
     \<noteq> Inr (Some (int_of_digits (replicate 4301 CHR ''9'')))"
proof -
  have "(4300::nat) < 4301"
    by simp
  from long_digit_run_raises [OF this] show ?thesis
    by simp
qed

text \<open>
  Claim C6, amended. \<^const>\<open>extract_cylinders_int_value_from_cylinders_str\<close> returns
  absent on an absent input. On a string made of a non-empty run of at most 4300 digits
  followed by \<^verbatim>\<open>" cylinders"\<close> it returns the integer that the run denotes; in
  particular the decimal numeral of any \<open>n\<close> below \<open>10 ^ 4300\<close> gives back \<open>n\<close>. On a
  longer run of digits it raises ValueError. On a string with no digit at position 0
  (the empty string included) it returns absent.
\<close>

theorem extract_cylinders_leading_integer:
  "extract_cylinders_int_value_from_cylinders_str None = Inr None
   \<and> (\<forall>ds. ds \<noteq> [] \<and> (\<forall>c\<in>set ds. is_digit c) \<and> length ds \<le> 4300 \<longrightarrow>
         extract_cylinders_int_value_from_cylinders_str (Some (ds @ '' cylinders''))
           = Inr (Some (int_of_digits ds)))
   \<and> (\<forall>ds. (\<forall>c\<in>set ds. is_digit c) \<and> 4300 < length ds \<longrightarrow>
         extract_cylinders_int_value_from_cylinders_str (Some (ds @ '' cylinders''))
           = Inl ValueError)
   \<and> (\<forall>n. n < 10 ^ 4300 \<longrightarrow>
         extract_cylinders_int_value_from_cylinders_str (Some (decimal n @ '' cylinders''))
           = Inr (Some (int n)))
   \<and> (\<forall>s. s = [] \<or> \<not> is_digit (hd s) \<longrightarrow>
         extract_cylinders_int_value_from_cylinders_str (Some s) = Inr None)"
proof (intro conjI allI impI)
  show "extract_cylinders_int_value_from_cylinders_str None = Inr None"
    by (simp add: extract_cylinders_int_value_from_cylinders_str_def)
next
  fix ds :: string
  assume a: "ds \<noteq> [] \<and> (\<forall>c\<in>set ds. is_digit c) \<and> length ds \<le> 4300"
  then have "ds \<noteq> []" and "\<forall>c\<in>set ds. is_digit c"
    by blast+
  from extract_leading_digits [OF this not_digit_space] a
  show "extract_cylinders_int_value_from_cylinders_str (Some (ds @ '' cylinders''))
               = Inr (Some (int_of_digits ds))"
    by simp
next
  fix ds :: string
  assume a: "(\<forall>c\<in>set ds. is_digit c) \<and> 4300 < length ds"
  then have "ds \<noteq> []" and "\<forall>c\<in>set ds. is_digit c"
    by auto
  from extract_leading_digits [OF this not_digit_space] a
  show "extract_cylinders_int_value_from_cylinders_str (Some (ds @ '' cylinders''))
               = Inl ValueError"
    by simp
next
  fix n :: nat
  assume "n < 10 ^ 4300"
  then have "length (decimal n) \<le> 4300"
    by (rule length_decimal) simp
  moreover have "decimal n \<noteq> []" and "\<forall>c\<in>set (decimal n). is_digit c"
    using decimal_digits [of n] by blast+
  note extract_leading_digits [OF this not_digit_space]
  ultimately show "extract_cylinders_int_value_from_cylinders_str
      (Some (decimal n @ '' cylinders'')) = Inr (Some (int n))"
    by (simp add: int_of_digits_decimal)
next
  fix s :: string
  assume "s = [] \<or> \<not> is_digit (hd s)"
  then have "takeWhile is_digit s = []"
    by (cases s) auto
  then show "extract_cylinders_int_value_from_cylinders_str (Some s) = Inr None"
    by (simp add: extract_cylinders_int_value_from_cylinders_str_def)
qed

text \<open>
  Claim C6, amended, at the inputs \<^verbatim>\<open>"12 cylinders"\<close>, \<^verbatim>\<open>"other"\<close> and a run of
  5000 zeros.
\<close>

theorem extract_cylinders_leading_integer_witness:
  "list_all is_digit ''12''
   \<and> extract_cylinders_int_value_from_cylinders_str (Some ''12 cylinders'') = Inr (Some 12)
   \<and> \<not> is_digit (hd ''other'')
   \<and> extract_cylinders_int_value_from_cylinders_str (Some ''other'') = Inr None
   \<and> extract_cylinders_int_value_from_cylinders_str
       (Some (replicate 5000 CHR ''0'' @ '' cylinders'')) = Inl ValueError"
proof -
  have d: "''12'' \<noteq> [] \<and> (\<forall>c\<in>set ''12''. is_digit c) \<and> length ''12'' \<le> 4300"
    by (simp add: is_digit_def)
  have n: "''other'' = [] \<or> \<not> is_digit (hd ''other'')"
    by (simp add: is_digit_def)
  have z: "(\<forall>c\<in>set (replicate 5000 CHR ''0''). is_digit c)
      \<and> 4300 < length (replicate 5000 CHR ''0'')"
    by (simp add: is_digit_def)
  from extract_cylinders_leading_integer
  have a: "extract_cylinders_int_value_from_cylinders_str (Some (''12'' @ '' cylinders''))
             = Inr (Some (int_of_digits ''12''))"
    and b: "extract_cylinders_int_value_from_cylinders_str (Some ''other'') = Inr None"
    and c: "extract_cylinders_int_value_from_cylinders_str
       (Some (replicate 5000 CHR ''0'' @ '' cylinders'')) = Inl ValueError"
    using d n z by blast+
  from a have "extract_cylinders_int_value_from_cylinders_str (Some ''12 cylinders'')
      = Inr (Some 12)"
    by (simp add: int_of_digits_def digit_value_def)
  with b c d n show ?thesis
    by simp
qed

text \<open>
  Claim C7. For the header \<^verbatim>\<open>[a, b, cylinders]\<close> and the single data row
  \<^verbatim>\<open>[" x ", "", "6 cylinders"]\<close> the reader yields exactly one row, the mapping
  \<^verbatim>\<open>{a: "x", b: None, cylinders: 6}\<close>.
\<close>

theorem normalized_row_example:
  "create_csv_records_iterator_from_zip_file
     [[''a'', ''b'', ''cylinders''], ['' x '', '''', ''6 cylinders'']]
   = [Inr [(''a'', PyStr ''x''), (''b'', PyNone), (''cylinders'', PyInt 6)]]"
  by (simp add: create_csv_records_iterator_from_zip_file_def normalize_line_def
      strip_strings_and_replace_empty_strings_with_none_def strip_def is_space_def
      dict_of_pairs_def dict_get_def extract_cylinders_int_value_from_cylinders_str_def
      int_of_str_def int_max_str_digits_def
      is_digit_def int_of_digits_def digit_value_def of_int_opt_def of_str_opt_def)

text \<open>
  Claim C8 as stated fails on a string of white space: its result is absent, and the
  second application to that result raises AttributeError instead of yielding absent
  again.
\<close>

theorem strip_twice_counterexample:
  "strip_strings_and_replace_empty_strings_with_none ''  '' = None
   \<and> call_strip_strings_and_replace_empty_strings_with_none
        (strip_strings_and_replace_empty_strings_with_none ''  '') = Inl AttributeError
   \<and> call_strip_strings_and_replace_empty_strings_with_none
        (strip_strings_and_replace_empty_strings_with_none ''  '')
       \<noteq> Inr (strip_strings_and_replace_empty_strings_with_none ''  '')"
  by (simp add: strip_strings_and_replace_empty_strings_with_none_def strip_def is_space_def
      call_strip_strings_and_replace_empty_strings_with_none_def)

text \<open>
  Claim C8, amended. When \<^const>\<open>strip_strings_and_replace_empty_strings_with_none\<close>
  yields a string \<open>t\<close>, applying it to \<open>t\<close> yields \<open>t\<close> again. When it yields absent,
  a second application to that result raises AttributeError.
\<close>

theorem strip_twice:
  "(strip_strings_and_replace_empty_strings_with_none s = Some t \<longrightarrow>
      strip_strings_and_replace_empty_strings_with_none t = Some t
      \<and> call_strip_strings_and_replace_empty_strings_with_none
           (strip_strings_and_replace_empty_strings_with_none s) = Inr (Some t))
   \<and> (strip_strings_and_replace_empty_strings_with_none s = None \<longrightarrow>
      call_strip_strings_and_replace_empty_strings_with_none
        (strip_strings_and_replace_empty_strings_with_none s) = Inl AttributeError)"
proof (intro conjI impI)
  assume a: "strip_strings_and_replace_empty_strings_with_none s = Some t"
  then have t: "t = strip s" and ne: "strip s \<noteq> []"
    by (auto simp: strip_strings_and_replace_empty_strings_with_none_def Let_def split: if_splits)
  then show "strip_strings_and_replace_empty_strings_with_none t = Some t"
    by (simp add: strip_strings_and_replace_empty_strings_with_none_def strip_idem)
  with a show "call_strip_strings_and_replace_empty_strings_with_none
           (strip_strings_and_replace_empty_strings_with_none s) = Inr (Some t)"
    by (simp add: call_strip_strings_and_replace_empty_strings_with_none_def)
next
  assume "strip_strings_and_replace_empty_strings_with_none s = None"
  then show "call_strip_strings_and_replace_empty_strings_with_none
        (strip_strings_and_replace_empty_strings_with_none s) = Inl AttributeError"
    by (simp add: call_strip_strings_and_replace_empty_strings_with_none_def)
qed

text \<open>
  Claim C8, amended, at the inputs \<^verbatim>\<open>" x "\<close> and \<^verbatim>\<open>"  "\<close>.
\<close>

theorem strip_twice_witness:
  "strip_strings_and_replace_empty_strings_with_none '' x '' = Some ''x''
   \<and> strip_strings_and_replace_empty_strings_with_none ''x'' = Some ''x''
   \<and> call_strip_strings_and_replace_empty_strings_with_none
        (strip_strings_and_replace_empty_strings_with_none '' x '') = Inr (Some ''x'')
   \<and> strip_strings_and_replace_empty_strings_with_none ''  '' = None
   \<and> call_strip_strings_and_replace_empty_strings_with_none
        (strip_strings_and_replace_empty_strings_with_none ''  '') = Inl AttributeError"
proof -
  have a: "strip_strings_and_replace_empty_strings_with_none '' x '' = Some ''x''"
    by (simp add: strip_strings_and_replace_empty_strings_with_none_def strip_def is_space_def)
  have b: "strip_strings_and_replace_empty_strings_with_none ''  '' = None"
    by (simp add: strip_strings_and_replace_empty_strings_with_none_def strip_def is_space_def)
  from a b strip_twice [of "'' x ''" "''x''"] strip_twice [of "''  ''" "''x''"]
  show ?thesis by blast
qed

section \<open>Properties of the streaming record reader\<close>

lemma cylinders_lookup:
  "dict_get (dict_of_pairs (zip hs (map f line))) k =
     (if k \<in> set (take (length line) hs)
      then Inr (the (map_of (rev (zip hs (map f line))) k))
      else Inl (KeyError k))"
proof -
  have "dom (map_of (rev (zip hs (map f line)))) = set (take (length line) hs)"
    by (simp add: dom_map_of_conv_image_fst fst_set_zip)
  then have "map_of (rev (zip hs (map f line))) k = None \<longleftrightarrow> k \<notin> set (take (length line) hs)"
    by (metis domIff)
  then show ?thesis
    by (auto simp: dict_get_def map_of_dict_of_pairs split: option.splits)
qed

lemma normalize_line_cases:
  "normalize_line hs line =
     (if ''cylinders'' \<in> set (take (length line) hs)
      then (case extract_cylinders_int_value_from_cylinders_str
                   (the (map_of (rev (zip hs (map strip_strings_and_replace_empty_strings_with_none line))) ''cylinders'')) of
              Inl e \<Rightarrow> Inl e
            | Inr c \<Rightarrow>
                Inr (dict_set ''cylinders'' (of_int_opt c)
                      (map (\<lambda>(k, v). (k, of_str_opt v))
                         (dict_of_pairs (zip hs (map strip_strings_and_replace_empty_strings_with_none line))))))
      else Inl (KeyError ''cylinders''))"
  by (simp add: normalize_line_def cylinders_lookup)

lemma normalize_line_take: "normalize_line hs (take (length hs) line) = normalize_line hs line"
proof -
  have "zip hs (map f (take (length hs) line)) = zip hs (map f line)" for f :: "string \<Rightarrow> string option"
    using zip_take_right [of hs "map f line"] by (simp add: take_map)
  then show ?thesis
    by (simp add: normalize_line_def)
qed

lemma keys_map_values: "fst ` set (map (\<lambda>(k, v). (k, f v)) ps) = fst ` set ps"
  by (induction ps) auto

lemma normalize_line_keys:
  assumes "normalize_line hs line = Inr d"
  shows "fst ` set d = set (take (length line) hs)"
proof -
  let ?d0 = "dict_of_pairs (zip hs (map strip_strings_and_replace_empty_strings_with_none line))"
  from assms have c: "''cylinders'' \<in> set (take (length line) hs)"
    by (simp add: normalize_line_cases split: if_splits)
  with assms obtain v where "d = dict_set ''cylinders'' v (map (\<lambda>(k, v). (k, of_str_opt v)) ?d0)"
    by (auto simp: normalize_line_cases split: sum.splits)
  then have "fst ` set d = insert ''cylinders'' (fst ` set ?d0)"
    by (simp only: keys_dict_set keys_map_values)
  also have "fst ` set ?d0 = set (take (length line) hs)"
    by (simp add: keys_dict_of_pairs fst_set_zip)
  finally show ?thesis
    using c by auto
qed

lemma map_of_map_values: "map_of (map (\<lambda>(k, v). (k, f v)) ps) k = map_option f (map_of ps k)"
  by (induction ps) auto

lemma normalize_line_value:
  assumes "normalize_line hs line = Inr d" and "distinct hs"
    and "i < length line" and "i < length hs"
  shows "(hs ! i \<noteq> ''cylinders'' \<longrightarrow>
            map_of d (hs ! i)
              = Some (of_str_opt (strip_strings_and_replace_empty_strings_with_none (line ! i))))
       \<and> (hs ! i = ''cylinders'' \<longrightarrow>
            (\<exists>c. extract_cylinders_int_value_from_cylinders_str
                    (strip_strings_and_replace_empty_strings_with_none (line ! i)) = Inr c
                \<and> map_of d (hs ! i) = Some (of_int_opt c)))"
proof -
  let ?ps = "zip hs (map strip_strings_and_replace_empty_strings_with_none line)"
  have "distinct (map fst (rev ?ps))"
    using assms(2) by (simp add: rev_map [symmetric] map_fst_zip_take)
  moreover have "(hs ! i, strip_strings_and_replace_empty_strings_with_none (line ! i)) \<in> set (rev ?ps)"
    using assms(3,4) by (auto simp: set_zip intro!: exI [of _ i])
  ultimately have "map_of (rev ?ps) (hs ! i)
      = Some (strip_strings_and_replace_empty_strings_with_none (line ! i))"
    by (simp only: map_of_eq_Some_iff)
  with assms(1) show ?thesis
    by (auto simp: normalize_line_cases map_of_dict_set map_of_map_values map_of_dict_of_pairs
        split: if_splits sum.splits)
qed

text \<open>
  Claim C3, amended. \<^const>\<open>normalize_line\<close> is what the reader does with one data row.
  Cells beyond the last header are dropped: the row gives the same result as its first
  \<open>length hs\<close> cells. A header with no corresponding cell gets no entry at all in the
  yielded row (the keys of the row are the headers that have a cell), it is not mapped to
  the absent marker; when \<^verbatim>\<open>cylinders\<close> is such a header the row is not yielded and
  KeyError is raised. When \<^verbatim>\<open>cylinders\<close> has a cell, the row is yielded unless
  \<^verbatim>\<open>int\<close> refuses the digits of that cell with ValueError. With distinct headers, each
  header that has a cell is mapped to the normalized cell at its position (for
  \<^verbatim>\<open>cylinders\<close>, to the leading integer of it).
\<close>

theorem normalize_line_zips_positionally:
  "normalize_line hs (take (length hs) line) = normalize_line hs line
   \<and> (''cylinders'' \<notin> set (take (length line) hs) \<longrightarrow>
        normalize_line hs line = Inl (KeyError ''cylinders''))
   \<and> (''cylinders'' \<in> set (take (length line) hs) \<longrightarrow>
        (\<exists>d. normalize_line hs line = Inr d) \<or> normalize_line hs line = Inl ValueError)
   \<and> (\<forall>d. normalize_line hs line = Inr d \<longrightarrow>
        fst ` set d = set (take (length line) hs)
        \<and> (\<forall>i. length line \<le> i \<and> i < length hs \<and> hs ! i \<notin> set (take (length line) hs) \<longrightarrow>
              map_of d (hs ! i) = None)
        \<and> (distinct hs \<longrightarrow>
             (\<forall>i. i < length line \<and> i < length hs \<longrightarrow>
                (hs ! i \<noteq> ''cylinders'' \<longrightarrow>
                   map_of d (hs ! i)
                     = Some (of_str_opt
                         (strip_strings_and_replace_empty_strings_with_none (line ! i))))
                \<and> (hs ! i = ''cylinders'' \<longrightarrow>
                   (\<exists>c. extract_cylinders_int_value_from_cylinders_str
                           (strip_strings_and_replace_empty_strings_with_none (line ! i)) = Inr c
                       \<and> map_of d (hs ! i) = Some (of_int_opt c))))))"
proof (intro conjI allI impI)
  show "normalize_line hs (take (length hs) line) = normalize_line hs line"
    by (rule normalize_line_take)
next
  assume "''cylinders'' \<notin> set (take (length line) hs)"
  then show "normalize_line hs line = Inl (KeyError ''cylinders'')"
    by (simp add: normalize_line_cases)
next
  assume "''cylinders'' \<in> set (take (length line) hs)"
  then show "(\<exists>d. normalize_line hs line = Inr d) \<or> normalize_line hs line = Inl ValueError"
    by (auto simp: normalize_line_cases split: sum.splits
        dest: extract_raises_only_ValueError)
next
  fix d
  assume "normalize_line hs line = Inr d"
  then show "fst ` set d = set (take (length line) hs)"
    by (rule normalize_line_keys)
next
  fix d i
  assume d: "normalize_line hs line = Inr d"
    and "length line \<le> i \<and> i < length hs \<and> hs ! i \<notin> set (take (length line) hs)"
  then have "hs ! i \<notin> fst ` set d"
    by (simp add: normalize_line_keys)
  then show "map_of d (hs ! i) = None"
    by (simp add: map_of_eq_None_iff)
next
  fix d i
  assume "normalize_line hs line = Inr d" and "distinct hs"
    and "i < length line \<and> i < length hs" and "hs ! i \<noteq> ''cylinders''"
  then show "map_of d (hs ! i)
      = Some (of_str_opt (strip_strings_and_replace_empty_strings_with_none (line ! i)))"
    using normalize_line_value [of hs line d i] by blast
next
  fix d i
  assume "normalize_line hs line = Inr d" and "distinct hs"
    and "i < length line \<and> i < length hs" and "hs ! i = ''cylinders''"
  then show "\<exists>c. extract_cylinders_int_value_from_cylinders_str
                    (strip_strings_and_replace_empty_strings_with_none (line ! i)) = Inr c
                \<and> map_of d (hs ! i) = Some (of_int_opt c)"
    using normalize_line_value [of hs line d i] by blast
qed

lemmas eval_defs = create_csv_records_iterator_from_zip_file_def normalize_line_def
      strip_strings_and_replace_empty_strings_with_none_def strip_def is_space_def
      dict_of_pairs_def dict_get_def extract_cylinders_int_value_from_cylinders_str_def
      int_of_str_def int_max_str_digits_def
      is_digit_def int_of_digits_def digit_value_def of_int_opt_def of_str_opt_def

text \<open>
  Claim C3 as stated fails on a row that is shorter than the header: the trailing header
  \<^verbatim>\<open>b\<close> is not a key of the yielded row, so it is not mapped to the absent marker.
\<close>

theorem short_row_counterexample:
  "create_csv_records_iterator_from_zip_file
     [[''a'', ''cylinders'', ''b''], ['' x '', ''6 cylinders'']]
     = [Inr [(''a'', PyStr ''x''), (''cylinders'', PyInt 6)]]
   \<and> map_of [(''a'', PyStr ''x''), (''cylinders'', PyInt 6)] ''b'' = None
   \<and> map_of [(''a'', PyStr ''x''), (''cylinders'', PyInt 6)] ''b'' \<noteq> Some PyNone"
  by (simp add: eval_defs)

text \<open>
  Claim C3, amended, at the header \<^verbatim>\<open>[a, cylinders, b]\<close> with a row of four cells, a
  row of two cells and a row of one cell.
\<close>

theorem normalize_line_zips_positionally_witness:
  "normalize_line [''a'', ''cylinders'', ''b''] [''1'', ''4 cylinders'', ''2'', ''3'']
     = Inr [(''a'', PyStr ''1''), (''cylinders'', PyInt 4), (''b'', PyStr ''2'')]
   \<and> normalize_line [''a'', ''cylinders'', ''b''] [''1'', ''4 cylinders'']
     = Inr [(''a'', PyStr ''1''), (''cylinders'', PyInt 4)]
   \<and> map_of [(''a'', PyStr ''1''), (''cylinders'', PyInt 4)] ''b'' = None
   \<and> map_of [(''a'', PyStr ''1''), (''cylinders'', PyInt 4)] ''a'' = Some (PyStr ''1'')
   \<and> normalize_line [''a'', ''cylinders'', ''b''] [''1''] = Inl (KeyError ''cylinders'')"
proof -
  let ?hs = "[''a'', ''cylinders'', ''b'']"
  have e: "normalize_line ?hs [''1'', ''4 cylinders'']
     = Inr [(''a'', PyStr ''1''), (''cylinders'', PyInt 4)]"
    by (simp add: eval_defs)
  have t: "normalize_line ?hs (take (length ?hs) [''1'', ''4 cylinders'', ''2'', ''3''])
     = Inr [(''a'', PyStr ''1''), (''cylinders'', PyInt 4), (''b'', PyStr ''2'')]"
    by (simp add: eval_defs)
  have k: "''cylinders'' \<notin> set (take (length [''1'']) ?hs)"
    by simp
  note w1 = normalize_line_zips_positionally [of ?hs "[''1'', ''4 cylinders'', ''2'', ''3'']"]
  note w2 = normalize_line_zips_positionally [of ?hs "[''1'', ''4 cylinders'']"]
  note w3 = normalize_line_zips_positionally [of ?hs "[''1'']"]
  from w1 t have 1: "normalize_line ?hs [''1'', ''4 cylinders'', ''2'', ''3'']
     = Inr [(''a'', PyStr ''1''), (''cylinders'', PyInt 4), (''b'', PyStr ''2'')]"
    by simp
  from w2 e have "length [''1'', ''4 cylinders''] \<le> 2 \<and> 2 < length ?hs
      \<and> ?hs ! 2 \<notin> set (take (length [''1'', ''4 cylinders'']) ?hs) \<longrightarrow>
      map_of [(''a'', PyStr ''1''), (''cylinders'', PyInt 4)] (?hs ! 2) = None"
    by blast
  then have 2: "map_of [(''a'', PyStr ''1''), (''cylinders'', PyInt 4)] ''b'' = None"
    by simp
  from w2 e have "distinct ?hs \<longrightarrow>
      (0 < length [''1'', ''4 cylinders''] \<and> 0 < length ?hs \<longrightarrow>
         (?hs ! 0 \<noteq> ''cylinders'' \<longrightarrow>
            map_of [(''a'', PyStr ''1''), (''cylinders'', PyInt 4)] (?hs ! 0)
              = Some (of_str_opt (strip_strings_and_replace_empty_strings_with_none
                        ([''1'', ''4 cylinders''] ! 0)))))"
    by blast
  then have 3: "map_of [(''a'', PyStr ''1''), (''cylinders'', PyInt 4)] ''a'' = Some (PyStr ''1'')"
    by (simp add: eval_defs)
  from w3 k have 4: "normalize_line ?hs [''1''] = Inl (KeyError ''cylinders'')"
    by blast
  from 1 e 2 3 4 show ?thesis by simp
qed

text \<open>
  Claim C10 as stated fails on an entry that has a header without \<^verbatim>\<open>cylinders\<close> and
  no data row: the request for the first row ends the sequence, no KeyError is raised.
\<close>

theorem header_only_counterexample:
  "create_csv_records_iterator_from_zip_file [[''a'', ''b'']] = []
   \<and> create_csv_records_iterator_from_zip_file [[''a'', ''b'']] \<noteq> [Inl (KeyError ''cylinders'')]"
  by (simp add: eval_defs)

text \<open>
  Claim C10, amended. When the entry has at least one data row, and the header has no
  column \<^verbatim>\<open>cylinders\<close> or the first data row is too short for a \<^verbatim>\<open>cylinders\<close>
  cell to survive the positional zip, the first request raises KeyError and no row is
  yielded.
\<close>

theorem missing_cylinders_raises_KeyError:
  assumes "''cylinders'' \<notin> set hs \<or> ''cylinders'' \<notin> set (take (length line) hs)"
  shows "create_csv_records_iterator_from_zip_file (hs # line # lines)
           = [Inl (KeyError ''cylinders'')]"
proof -
  from assms have "''cylinders'' \<notin> set (take (length line) hs)"
    by (auto dest: in_set_takeD)
  then show ?thesis
    by (simp add: create_csv_records_iterator_from_zip_file_def normalize_line_cases)
qed

text \<open>
  Claim C10, amended, at a header without \<^verbatim>\<open>cylinders\<close> and at a first row that is
  too short.
\<close>

theorem missing_cylinders_raises_KeyError_witness:
  "''cylinders'' \<notin> set [''a'', ''b'']
   \<and> create_csv_records_iterator_from_zip_file [[''a'', ''b''], [''1'', ''2''], [''3'', ''4'']]
       = [Inl (KeyError ''cylinders'')]
   \<and> ''cylinders'' \<notin> set (take (length [''1'']) [''a'', ''cylinders''])
   \<and> create_csv_records_iterator_from_zip_file [[''a'', ''cylinders''], [''1'']]
       = [Inl (KeyError ''cylinders'')]"
proof -
  have a: "''cylinders'' \<notin> set [''a'', ''b'']" by simp
  have b: "''cylinders'' \<notin> set (take (length [''1'']) [''a'', ''cylinders''])" by simp
  from a b missing_cylinders_raises_KeyError [of "[''a'', ''b'']" "[''1'', ''2'']" "[[''3'', ''4'']]"]
    missing_cylinders_raises_KeyError [of "[''a'', ''cylinders'']" "[''1'']" "[]"]
  show ?thesis by blast
qed

section \<open>Properties of the migration driver\<close>

lemmas state_defs = progress_def accept_def reject_def called_def flushed_def reset_def
  final_prints_def print_def

lemma flush_eq:
  "flush commit_ok bs st =
     (if commit_ok (current_batch st) then Inr (flushed bs st) else Inl (StorageError, called bs st))"
  by (simp add: flush_def insert_batch_of_craigslist_vehicle_records_def state_defs Let_def)

lemma after_loop_eq:
  "after_loop commit_ok bs st =
     (if current_batch st = [] then Returned (final_prints st)
      else if commit_ok (current_batch st) then Returned (final_prints (flushed bs st))
      else Raised StorageError (called bs st))"
  by (simp add: after_loop_def flush_eq final_prints_def)

lemma loop_stop:
  "rows_count_in_current_batch st < bs \<Longrightarrow>
   migrate_loop validate commit_ok bs mx [] st = Some (Break (progress st))"
  by (subst migrate_loop.simps) (simp add: state_defs)

lemma loop_raise:
  "rows_count_in_current_batch st < bs \<Longrightarrow>
   migrate_loop validate commit_ok bs mx (Inl e # it) st = Some (Raise e (progress st))"
  by (subst migrate_loop.simps) (simp add: state_defs)

lemma loop_valid:
  "rows_count_in_current_batch st < bs \<Longrightarrow> validate d = Inr r \<Longrightarrow>
   migrate_loop validate commit_ok bs mx (Inr d # it) st
     = migrate_loop validate commit_ok bs mx it (accept r st)"
  by (subst migrate_loop.simps) (simp add: state_defs)

lemma loop_invalid:
  "rows_count_in_current_batch st < bs \<Longrightarrow> validate d = Inl e \<Longrightarrow>
   migrate_loop validate commit_ok bs mx (Inr d # it) st
     = migrate_loop validate commit_ok bs mx it (reject e d st)"
  by (subst migrate_loop.simps) (simp add: state_defs)

lemma loop_flush:
  "\<not> rows_count_in_current_batch st < bs \<Longrightarrow>
   migrate_loop validate commit_ok bs mx it st =
     (if \<not> commit_ok (current_batch st) then Some (Raise StorageError (called bs (progress st)))
      else if limit_reached mx (total_rows_parsed st) then Some (Break (flushed bs (progress st)))
      else migrate_loop validate commit_ok bs mx it (reset (flushed bs (progress st))))"
  by (subst migrate_loop.simps)
    (simp add: flush_eq Let_def progress_def [symmetric], simp add: state_defs)


lemma run_stop:
  "rows_count_in_current_batch st < bs \<Longrightarrow>
   loop_then_after validate commit_ok bs mx [] st = Some (after_loop commit_ok bs (progress st))"
  by (simp add: loop_then_after_def loop_stop)

lemma run_raise:
  "rows_count_in_current_batch st < bs \<Longrightarrow>
   loop_then_after validate commit_ok bs mx (Inl e # it) st = Some (Raised e (progress st))"
  by (simp add: loop_then_after_def loop_raise)

lemma run_valid:
  "rows_count_in_current_batch st < bs \<Longrightarrow> validate d = Inr r \<Longrightarrow>
   loop_then_after validate commit_ok bs mx (Inr d # it) st
     = loop_then_after validate commit_ok bs mx it (accept r st)"
  by (simp add: loop_then_after_def loop_valid)

lemma run_invalid:
  "rows_count_in_current_batch st < bs \<Longrightarrow> validate d = Inl e \<Longrightarrow>
   loop_then_after validate commit_ok bs mx (Inr d # it) st
     = loop_then_after validate commit_ok bs mx it (reject e d st)"
  by (simp add: loop_then_after_def loop_invalid)

lemma run_flush:
  "\<not> rows_count_in_current_batch st < bs \<Longrightarrow>
   loop_then_after validate commit_ok bs mx it st =
     (if \<not> commit_ok (current_batch st) then Some (Raised StorageError (called bs (progress st)))
      else if limit_reached mx (total_rows_parsed st)
        then Some (after_loop commit_ok bs (flushed bs (progress st)))
      else loop_then_after validate commit_ok bs mx it (reset (flushed bs (progress st))))"
  by (simp add: loop_then_after_def loop_flush)

lemma chunks_Nil: "chunks n [] = []"
  by (simp add: chunks.simps)

lemma chunks_full: "length b = n \<Longrightarrow> 0 < n \<Longrightarrow> chunks n (b @ vs) = b # chunks n vs"
  by (subst chunks.simps) auto

lemma chunks_last: "length b \<le> n \<Longrightarrow> b \<noteq> [] \<Longrightarrow> chunks n b = [b]"
  by (subst chunks.simps) (cases n, auto simp: chunks_Nil)

lemma concat_chunks: "0 < n \<Longrightarrow> concat (chunks n xs) = xs"
proof (induction n xs rule: chunks.induct)
  case (1 n xs)
  then show ?case
    by (subst chunks.simps) auto
qed

lemma chunks_sizes: "b \<in> set (chunks n xs) \<Longrightarrow> b \<noteq> [] \<and> length b \<le> n"
proof (induction n xs arbitrary: b rule: chunks.induct)
  case (1 n xs)
  from "1.prems" have ne: "\<not> (n = 0 \<or> xs = [])"
    by (subst (asm) chunks.simps) (auto split: if_splits)
  with "1.prems" have "b = take n xs \<or> b \<in> set (chunks n (drop n xs))"
    by (subst (asm) chunks.simps) auto
  with ne "1.IH" show ?case
    by auto
qed

lemma validation_log_append [simp]:
  "validation_log (xs @ ys) = validation_log xs @ validation_log ys"
  by (simp add: validation_log_def)

lemma validation_log_simps [simp]:
  "validation_log [] = []"
  "validation_log (x # xs) = (if is_validation_print x then x # validation_log xs else validation_log xs)"
  by (simp_all add: validation_log_def)

text \<open>The whole run, when the limit is unset, every commit succeeds and the reader raises nothing.\<close>

lemma run_unbounded:
  assumes bs: "0 < bs" and ok: "\<forall>b. commit_ok b"
  shows "rows_count_in_current_batch st = int (length (current_batch st)) \<Longrightarrow>
    rows_count_in_current_batch st < bs \<Longrightarrow>
    \<exists>st'. loop_then_after validate commit_ok bs None (map Inr ds) st = Some (Returned st')
      \<and> insert_calls st' =
          insert_calls st @ chunks (nat bs) (current_batch st @ valid_records validate ds)
      \<and> total_rows_parsed st' = total_rows_parsed st + int (length (valid_records validate ds))
      \<and> total_rows_inserted st' =
          total_rows_inserted st + int (length (current_batch st))
            + int (length (valid_records validate ds))
      \<and> validation_log (stdout st') = validation_log (stdout st) @ failure_prints validate ds"
proof (induction ds arbitrary: st)
  case Nil
  show ?case
  proof (cases "current_batch st = []")
    case True
    with Nil show ?thesis
      by (simp add: run_stop after_loop_eq chunks_Nil) (simp add: state_defs)
  next
    case False
    with Nil have "chunks (nat bs) (current_batch st) = [current_batch st]"
      by (intro chunks_last) auto
    with False Nil ok show ?thesis
      by (simp add: run_stop after_loop_eq) (simp add: state_defs)
  qed
next
  case (Cons d ds)
  show ?case
  proof (cases "validate d")
    case (Inl e)
    have "rows_count_in_current_batch (reject e d st) = int (length (current_batch (reject e d st)))"
      and "rows_count_in_current_batch (reject e d st) < bs"
      using Cons.prems by (simp_all add: state_defs)
    from Cons.IH [OF this] Inl Cons.prems show ?thesis
      by (simp add: run_invalid) (simp add: state_defs)
  next
    case (Inr r)
    let ?st1 = "accept r st"
    have run: "loop_then_after validate commit_ok bs None (map Inr (d # ds)) st
        = loop_then_after validate commit_ok bs None (map Inr ds) ?st1"
      using Inr Cons.prems by (simp add: run_valid)
    show ?thesis
    proof (cases "rows_count_in_current_batch ?st1 < bs")
      case True
      have "rows_count_in_current_batch ?st1 = int (length (current_batch ?st1))"
        using Cons.prems by (simp add: state_defs)
      from Cons.IH [OF this True] Inr show ?thesis
        unfolding run by (auto simp: state_defs)
    next
      case False
      let ?st2 = "reset (flushed bs (progress ?st1))"
      have full: "length (current_batch st @ [r]) = nat bs"
        using False Cons.prems by (simp add: state_defs)
      have "loop_then_after validate commit_ok bs None (map Inr ds) ?st1
          = loop_then_after validate commit_ok bs None (map Inr ds) ?st2"
        using False ok by (simp add: run_flush limit_reached_def)
      moreover have "rows_count_in_current_batch ?st2 = int (length (current_batch ?st2))"
        and "rows_count_in_current_batch ?st2 < bs"
        using bs by (simp_all add: state_defs)
      note Cons.IH [OF this]
      moreover have "chunks (nat bs) (current_batch st @ r # valid_records validate ds)
          = (current_batch st @ [r]) # chunks (nat bs) (valid_records validate ds)"
        using chunks_full [OF full, of "valid_records validate ds"] bs by simp
      moreover have "rows_count_in_current_batch ?st1 = int (length (current_batch st)) + 1"
        using Cons.prems by (simp add: state_defs)
      ultimately show ?thesis
        unfolding run using Inr by (auto simp: state_defs)
    qed
  qed
qed

lemma loop_diverges_aux:
  assumes "migrate_loop validate commit_ok bs mx it st = Some y"
  shows "\<not> (bs \<le> 0 \<and> 0 \<le> rows_count_in_current_batch st \<and> commit_ok (current_batch st)
            \<and> commit_ok [] \<and> \<not> limit_reached mx (total_rows_parsed st))"
proof (rule migrate_loop.raw_induct [where P = "\<lambda>v c b m i s y.
    \<not> (b \<le> 0 \<and> 0 \<le> rows_count_in_current_batch s \<and> c (current_batch s)
            \<and> c [] \<and> \<not> limit_reached m (total_rows_parsed s))", OF _ assms], goal_cases)
  case (1 loop v c b m i s y)
  show ?case
  proof
    assume a: "b \<le> 0 \<and> 0 \<le> rows_count_in_current_batch s \<and> c (current_batch s)
            \<and> c [] \<and> \<not> limit_reached m (total_rows_parsed s)"
    then have nr: "\<not> rows_count_in_current_batch (progress s) < b"
      and ok: "c (current_batch (progress s))"
      and nl: "\<not> limit_reached m (total_rows_parsed (flushed b (progress s)))"
      by (simp_all add: state_defs)
    from 1(2) nr have "(case flush c b (progress s) of
              Inl (e, st) \<Rightarrow> Some (Raise e st)
            | Inr st \<Rightarrow>
                if limit_reached m (total_rows_parsed st) then Some (Break st)
                else loop v c b m i (st\<lparr>rows_count_in_current_batch := 0, current_batch := []\<rparr>)) = Some y"
      by (simp add: Let_def progress_def [symmetric])
    with ok nl have "loop v c b m i (reset (flushed b (progress s))) = Some y"
      by (simp add: flush_eq reset_def)
    from 1(1) [OF this] a show False
      by (simp add: state_defs)
  qed
qed

lemma loop_diverges:
  "bs \<le> 0 \<Longrightarrow> 0 \<le> rows_count_in_current_batch st \<Longrightarrow> commit_ok (current_batch st) \<Longrightarrow>
   commit_ok [] \<Longrightarrow> \<not> limit_reached mx (total_rows_parsed st) \<Longrightarrow>
   migrate_loop validate commit_ok bs mx it st = None"
  using loop_diverges_aux [of validate commit_ok bs mx it st]
  by (cases "migrate_loop validate commit_ok bs mx it st") auto

lemma consumed_flush_mode:
  assumes bs: "0 < bs" and fm: "\<not> rows_count_in_current_batch st < bs"
    and rd: "\<And>st2. rows_count_in_current_batch st2 < bs \<Longrightarrow>
      \<exists>oc k. loop_then_after validate commit_ok bs mx it st2 = Some oc
        \<and> consumed validate it k st2 (final_state oc)
        \<and> (mx = None \<and> (\<forall>b. commit_ok b) \<and> it = map Inr (yielded it) \<longrightarrow>
             k = length it \<and> oc = Returned (final_state oc))"
  shows "\<exists>oc k. loop_then_after validate commit_ok bs mx it st = Some oc
        \<and> consumed validate it k st (final_state oc)
        \<and> (mx = None \<and> (\<forall>b. commit_ok b) \<and> it = map Inr (yielded it) \<longrightarrow>
             k = length it \<and> oc = Returned (final_state oc))"
proof (cases "commit_ok (current_batch st)")
  case False
  with fm have "loop_then_after validate commit_ok bs mx it st
      = Some (Raised StorageError (called bs (progress st)))"
    by (simp add: run_flush)
  moreover have "consumed validate it 0 st (called bs (progress st))"
    by (simp add: consumed_def) (auto simp: state_defs)
  ultimately show ?thesis
    using False by (intro exI [of _ "Raised StorageError (called bs (progress st))"] exI [of _ 0]) auto
next
  case ok: True
  show ?thesis
  proof (cases "limit_reached mx (total_rows_parsed st)")
    case True
    let ?oc = "after_loop commit_ok bs (flushed bs (progress st))"
    from True have mx: "mx \<noteq> None"
      by (auto simp: limit_reached_def split: option.splits)
    from fm ok True have "loop_then_after validate commit_ok bs mx it st = Some ?oc"
      by (simp add: run_flush)
    moreover have "consumed validate it 0 st (final_state ?oc)"
      by (simp add: consumed_def after_loop_eq) (auto simp: state_defs)
    ultimately show ?thesis
      using mx by (intro exI [of _ ?oc] exI [of _ 0]) auto
  next
    case False
    let ?st2 = "reset (flushed bs (progress st))"
    from fm ok False have run: "loop_then_after validate commit_ok bs mx it st
        = loop_then_after validate commit_ok bs mx it ?st2"
      by (simp add: run_flush)
    have "rows_count_in_current_batch ?st2 < bs"
      using bs by (simp add: state_defs)
    from rd [OF this] obtain oc k where
      oc: "loop_then_after validate commit_ok bs mx it ?st2 = Some oc"
      and c: "consumed validate it k ?st2 (final_state oc)"
      and all: "mx = None \<and> (\<forall>b. commit_ok b) \<and> it = map Inr (yielded it) \<longrightarrow>
             k = length it \<and> oc = Returned (final_state oc)"
      by blast
    from c have "consumed validate it k st (final_state oc)"
      by (simp add: consumed_def) (auto simp: state_defs)
    with oc all show ?thesis
      unfolding run by blast
  qed
qed

lemma run_consumes:
  assumes bs: "0 < bs"
  shows "rows_count_in_current_batch st < bs \<Longrightarrow>
    \<exists>oc k. loop_then_after validate commit_ok bs mx it st = Some oc
        \<and> consumed validate it k st (final_state oc)
        \<and> (mx = None \<and> (\<forall>b. commit_ok b) \<and> it = map Inr (yielded it) \<longrightarrow>
             k = length it \<and> oc = Returned (final_state oc))"
proof (induction it arbitrary: st)
  case Nil
  let ?oc = "after_loop commit_ok bs (progress st)"
  from Nil have "loop_then_after validate commit_ok bs mx [] st = Some ?oc"
    by (simp add: run_stop)
  moreover have "consumed validate [] 0 st (final_state ?oc)"
    by (simp add: consumed_def after_loop_eq) (auto simp: state_defs)
  moreover have "(\<forall>b. commit_ok b) \<longrightarrow> ?oc = Returned (final_state ?oc)"
    by (simp add: after_loop_eq)
  ultimately show ?case
    by (intro exI [of _ ?oc] exI [of _ 0]) auto
next
  case (Cons x it)
  show ?case
  proof (cases x)
    case (Inl e)
    with Cons.prems have "loop_then_after validate commit_ok bs mx (x # it) st
        = Some (Raised e (progress st))"
      by (simp add: run_raise)
    moreover have "consumed validate (x # it) 0 st (progress st)"
      by (simp add: consumed_def) (auto simp: state_defs)
    ultimately show ?thesis
      using Inl by (intro exI [of _ "Raised e (progress st)"] exI [of _ 0]) auto
  next
    case (Inr d)
    have next_state: "\<exists>oc k. loop_then_after validate commit_ok bs mx it st1 = Some oc
        \<and> consumed validate it k st1 (final_state oc)
        \<and> (mx = None \<and> (\<forall>b. commit_ok b) \<and> it = map Inr (yielded it) \<longrightarrow>
             k = length it \<and> oc = Returned (final_state oc))" for st1
    proof (cases "rows_count_in_current_batch st1 < bs")
      case True
      then show ?thesis by (rule Cons.IH)
    next
      case False
      from bs False Cons.IH show ?thesis by (rule consumed_flush_mode)
    qed
    show ?thesis
    proof (cases "validate d")
      case e: (Inl e)
      from next_state [of "reject e d st"] obtain oc k where
        oc: "loop_then_after validate commit_ok bs mx it (reject e d st) = Some oc"
        and c: "consumed validate it k (reject e d st) (final_state oc)"
        and all: "mx = None \<and> (\<forall>b. commit_ok b) \<and> it = map Inr (yielded it) \<longrightarrow>
             k = length it \<and> oc = Returned (final_state oc)"
        by blast
      from Cons.prems Inr e oc have "loop_then_after validate commit_ok bs mx (x # it) st = Some oc"
        by (simp add: run_invalid)
      moreover from c e Inr have "consumed validate (x # it) (Suc k) st (final_state oc)"
        by (simp add: consumed_def) (auto simp: state_defs)
      ultimately show ?thesis
        using all Inr by (intro exI [of _ oc] exI [of _ "Suc k"]) auto
    next
      case r: (Inr r)
      from next_state [of "accept r st"] obtain oc k where
        oc: "loop_then_after validate commit_ok bs mx it (accept r st) = Some oc"
        and c: "consumed validate it k (accept r st) (final_state oc)"
        and all: "mx = None \<and> (\<forall>b. commit_ok b) \<and> it = map Inr (yielded it) \<longrightarrow>
             k = length it \<and> oc = Returned (final_state oc)"
        by blast
      from Cons.prems Inr r oc have "loop_then_after validate commit_ok bs mx (x # it) st = Some oc"
        by (simp add: run_valid)
      moreover from c r Inr have "consumed validate (x # it) (Suc k) st (final_state oc)"
        by (simp add: consumed_def) (auto simp: state_defs)
      ultimately show ?thesis
        using all Inr by (intro exI [of _ oc] exI [of _ "Suc k"]) auto
    qed
  qed
qed

lemma valid_records_all: "map validate ds = map Inr rs \<Longrightarrow> valid_records validate ds = rs"
  by (induction ds arbitrary: rs) auto

lemma yielded_map_Inr [simp]: "yielded (map Inr ds) = ds"
  by (induction ds) auto

lemma initial_state_simps [simp]:
  "rows_count_in_current_batch initial_state = 0"
  "total_rows_parsed initial_state = 0"
  "total_rows_inserted initial_state = 0"
  "current_batch initial_state = []"
  "insert_calls initial_state = []"
  "stdout initial_state = []"
  by (simp_all add: initial_state_def)

lemma migrate_eq:
  "migrate_craigslist_records_csv_from_zip_to_db validate commit_ok bs mx csv
     = loop_then_after validate commit_ok bs mx
         (create_csv_records_iterator_from_zip_file csv) initial_state"
  by (simp add: migrate_craigslist_records_csv_from_zip_to_db_def)

text \<open>
  Claim C9, amended. When \<^verbatim>\<open>max_rows_to_parse\<close> is unset, the batch capacity is at
  least 1, every insert succeeds and the reader raises no error (it yields the rows
  \<open>ds\<close>), the driver returns, and the concatenation of the inserted batches is the list
  of the validated records in the order of their rows: each one is passed to the batch
  inserter exactly once. The batches are the consecutive pieces of \<open>batch_size\<close>
  records, none of them empty.
\<close>

theorem each_valid_record_inserted_once:
  assumes "0 < batch_size" and "\<forall>b. commit_ok b"
    and "create_csv_records_iterator_from_zip_file csv = map Inr ds"
  shows "\<exists>st. migrate_craigslist_records_csv_from_zip_to_db validate commit_ok batch_size None csv
             = Some (Returned st)
     \<and> concat (insert_calls st) = valid_records validate ds
     \<and> insert_calls st = chunks (nat batch_size) (valid_records validate ds)
     \<and> (\<forall>b\<in>set (insert_calls st). b \<noteq> [] \<and> int (length b) \<le> batch_size)
     \<and> total_rows_inserted st = int (length (valid_records validate ds))"
proof -
  from run_unbounded [OF assms(1,2), of initial_state validate ds] assms(1) obtain st where
    st: "loop_then_after validate commit_ok batch_size None (map Inr ds) initial_state
          = Some (Returned st)"
    and calls: "insert_calls st = chunks (nat batch_size) (valid_records validate ds)"
    and ins: "total_rows_inserted st = int (length (valid_records validate ds))"
    by auto
  from calls assms(1) have "concat (insert_calls st) = valid_records validate ds"
    by (simp add: concat_chunks)
  moreover have "\<forall>b\<in>set (insert_calls st). b \<noteq> [] \<and> int (length b) \<le> batch_size"
  proof
    fix b
    assume "b \<in> set (insert_calls st)"
    with calls have "b \<noteq> [] \<and> length b \<le> nat batch_size"
      by (simp add: chunks_sizes)
    with assms(1) show "b \<noteq> [] \<and> int (length b) \<le> batch_size"
      by auto
  qed
  ultimately show ?thesis
    using st calls ins assms(3) by (simp add: migrate_eq)
qed


text \<open>
  Claim C9 as stated fails in two ways. A data row without a \<^verbatim>\<open>cylinders\<close> cell (here
  an empty line) makes the reader raise KeyError, which the driver does not catch: the
  record of the first row, which validated, is never passed to the batch inserter. And
  with batch capacity 0 the loop never reads a row and never ends.
\<close>

theorem key_error_loses_pending_batch_counterexample:
  "create_csv_records_iterator_from_zip_file [[''cylinders''], [''4''], []]
     = [Inr [(''cylinders'', PyInt 4)], Inl (KeyError ''cylinders'')]
   \<and> cylinders_required [(''cylinders'', PyInt 4)] = Inr [(''cylinders'', PyInt 4)]
   \<and> map_option (insert_calls \<circ> final_state)
        (migrate_craigslist_records_csv_from_zip_to_db cylinders_required (\<lambda>b. True) 10 None
           [[''cylinders''], [''4''], []]) = Some []
   \<and> migrate_craigslist_records_csv_from_zip_to_db cylinders_required (\<lambda>b. True) 0 None
        [[''cylinders''], [''4'']] = None"
proof -
  have a: "create_csv_records_iterator_from_zip_file [[''cylinders''], [''4''], []]
     = [Inr [(''cylinders'', PyInt 4)], Inl (KeyError ''cylinders'')]"
    by (simp add: eval_defs)
  have b: "cylinders_required [(''cylinders'', PyInt 4)] = Inr [(''cylinders'', PyInt 4)]"
    by (simp add: cylinders_required_def)
  have c: "map_option (insert_calls \<circ> final_state)
        (migrate_craigslist_records_csv_from_zip_to_db cylinders_required (\<lambda>b. True) 10 None
           [[''cylinders''], [''4''], []]) = Some []"
    by code_simp
  have d: "migrate_craigslist_records_csv_from_zip_to_db cylinders_required (\<lambda>b. True) 0 None
        [[''cylinders''], [''4'']] = None"
    by (simp add: migrate_eq loop_then_after_def loop_diverges limit_reached_def)
  from a b c d show ?thesis by simp
qed

text \<open>
  Claim C9, amended, at four data rows of which the second fails validation, with batch
  capacity 2.
\<close>

theorem each_valid_record_inserted_once_witness:
  "map_option (insert_calls \<circ> final_state)
     (migrate_craigslist_records_csv_from_zip_to_db cylinders_required (\<lambda>b. True) 2 None
        [[''cylinders''], [''4''], [''''], [''6 cylinders''], [''8'']])
   = Some [[[(''cylinders'', PyInt 4)], [(''cylinders'', PyInt 6)]], [[(''cylinders'', PyInt 8)]]]"
proof -
  let ?csv = "[[''cylinders''], [''4''], [''''], [''6 cylinders''], [''8'']]"
  let ?ds = "[[(''cylinders'', PyInt 4)], [(''cylinders'', PyNone)],
              [(''cylinders'', PyInt 6)], [(''cylinders'', PyInt 8)]]"
  have r: "create_csv_records_iterator_from_zip_file ?csv = map Inr ?ds"
    by (simp add: eval_defs)
  have v: "valid_records cylinders_required ?ds
      = [[(''cylinders'', PyInt 4)], [(''cylinders'', PyInt 6)], [(''cylinders'', PyInt 8)]]"
    by (simp add: cylinders_required_def)
  have "(0::int) < 2" and "\<forall>b :: pyval dict list. (\<lambda>b. True) b"
    by simp_all
  from each_valid_record_inserted_once [OF this r, of cylinders_required]
  obtain st where "migrate_craigslist_records_csv_from_zip_to_db cylinders_required (\<lambda>b. True) 2 None ?csv
             = Some (Returned st)"
    and "insert_calls st = chunks (nat 2) (valid_records cylinders_required ?ds)"
    by blast
  then show ?thesis
    unfolding v by (simp add: chunks.simps)
qed

text \<open>
  Claim C4. For an input of exactly 5 rows that the reader yields and that all validate,
  with batch capacity 2 (and \<^verbatim>\<open>max_rows_to_parse\<close> left at its default), the driver
  returns after exactly 3 insert calls, of sizes 2, 2 and 1 in that order, which hold the
  five records in input order; the final inserted count is 5.
\<close>

theorem five_rows_capacity_two:
  assumes "create_csv_records_iterator_from_zip_file csv = map Inr ds"
    and "map validate ds = map Inr rs"
    and "length ds = 5"
  shows "\<exists>st. migrate_craigslist_records_csv_from_zip_to_db validate (\<lambda>b. True) 2 None csv
             = Some (Returned st)
     \<and> length (insert_calls st) = 3
     \<and> map length (insert_calls st) = [2, 2, 1]
     \<and> insert_calls st = [take 2 rs, take 2 (drop 2 rs), drop 4 rs]
     \<and> total_rows_inserted st = 5"
proof -
  from assms(2) have v: "valid_records validate ds = rs"
    by (rule valid_records_all)
  from assms(2) have "length ds = length rs"
    using map_eq_imp_length_eq by blast
  with assms(3) have "length rs = 5"
    by simp
  then obtain a b c d e where rs: "rs = [a, b, c, d, e]"
    by (auto simp: length_Suc_conv eval_nat_numeral)
  have ch: "chunks (nat 2) rs = [[a, b], [c, d], [e]]"
    unfolding rs by (simp add: chunks.simps)
  from run_unbounded [of 2 "\<lambda>b. True" initial_state validate ds]
  obtain st where
    st: "loop_then_after validate (\<lambda>b. True) 2 None (map Inr ds) initial_state
          = Some (Returned st)"
    and calls: "insert_calls st = chunks (nat 2) (valid_records validate ds)"
    and ins: "total_rows_inserted st = int (length (valid_records validate ds))"
    by auto
  from calls ins have "insert_calls st = [[a, b], [c, d], [e]]" and "total_rows_inserted st = 5"
    unfolding v ch by (simp_all add: rs)
  with st assms(1) show ?thesis
    by (simp add: migrate_eq rs)
qed

text \<open>
  Claim C4, at a CSV with five data rows.
\<close>

theorem five_rows_capacity_two_witness:
  "map_option (insert_calls \<circ> final_state)
     (migrate_craigslist_records_csv_from_zip_to_db cylinders_required (\<lambda>b. True) 2 None
        [[''cylinders''], [''1''], [''2''], [''3''], [''4''], [''5'']])
   = Some [[[(''cylinders'', PyInt 1)], [(''cylinders'', PyInt 2)]],
           [[(''cylinders'', PyInt 3)], [(''cylinders'', PyInt 4)]],
           [[(''cylinders'', PyInt 5)]]]
   \<and> map_option (total_rows_inserted \<circ> final_state)
     (migrate_craigslist_records_csv_from_zip_to_db cylinders_required (\<lambda>b. True) 2 None
        [[''cylinders''], [''1''], [''2''], [''3''], [''4''], [''5'']])
   = Some 5"
proof -
  let ?csv = "[[''cylinders''], [''1''], [''2''], [''3''], [''4''], [''5'']]"
  let ?ds = "[[(''cylinders'', PyInt 1)], [(''cylinders'', PyInt 2)], [(''cylinders'', PyInt 3)],
              [(''cylinders'', PyInt 4)], [(''cylinders'', PyInt 5)]]"
  have r: "create_csv_records_iterator_from_zip_file ?csv = map Inr ?ds"
    by (simp add: eval_defs)
  have v: "map cylinders_required ?ds = map Inr ?ds"
    by (simp add: cylinders_required_def)
  have l: "length ?ds = 5"
    by simp
  from five_rows_capacity_two [OF r v l]
  obtain st where "migrate_craigslist_records_csv_from_zip_to_db cylinders_required (\<lambda>b. True) 2 None ?csv
             = Some (Returned st)"
    and "insert_calls st = [take 2 ?ds, take 2 (drop 2 ?ds), drop 4 ?ds]"
    and "total_rows_inserted st = 5"
    by blast
  then show ?thesis
    by simp
qed

text \<open>
  Claim C2 fails on the code. With batch capacity 2, \<^verbatim>\<open>max_rows_to_parse\<close> = 2 and two
  valid rows, the loop inserts the full batch and leaves by \<^verbatim>\<open>break\<close> before the batch
  is cleared; the flush after the loop then inserts the same two records again, and the
  inserted count is 4 for 2 parsed rows.
\<close>

theorem limit_break_inserts_batch_twice:
  "map_option (insert_calls \<circ> final_state)
     (migrate_craigslist_records_csv_from_zip_to_db cylinders_required (\<lambda>b. True) 2 (Some 2)
        [[''cylinders''], [''4''], [''6'']])
   = Some [[[(''cylinders'', PyInt 4)], [(''cylinders'', PyInt 6)]],
           [[(''cylinders'', PyInt 4)], [(''cylinders'', PyInt 6)]]]
   \<and> map_option (total_rows_parsed \<circ> final_state)
     (migrate_craigslist_records_csv_from_zip_to_db cylinders_required (\<lambda>b. True) 2 (Some 2)
        [[''cylinders''], [''4''], [''6'']])
   = Some 2
   \<and> map_option (total_rows_inserted \<circ> final_state)
     (migrate_craigslist_records_csv_from_zip_to_db cylinders_required (\<lambda>b. True) 2 (Some 2)
        [[''cylinders''], [''4''], [''6'']])
   = Some 4"
  by code_simp

lemma limit_break_reinserts:
  assumes "\<not> rows_count_in_current_batch st < bs" and "commit_ok (current_batch st)"
    and "limit_reached mx (total_rows_parsed st)" and "current_batch st \<noteq> []"
  shows "\<exists>st'. loop_then_after validate commit_ok bs mx it st = Some (Returned st')
     \<and> insert_calls st' = insert_calls st @ [current_batch st, current_batch st]
     \<and> total_rows_inserted st' = total_rows_inserted st + 2 * rows_count_in_current_batch st"
  using assms by (simp add: run_flush after_loop_eq) (simp add: state_defs)

text \<open>
  Claim C5. A row on which validation fails is skipped without ending the run. First,
  for every state of the loop that reads a row: when validation of the row \<open>d\<close> fails
  with \<open>e\<close>, the run goes on with the rows after \<open>d\<close> from a state that differs only in
  the output, which has gained the progress line, the error, the row and the separator;
  the batch, the inserted batches and both counters are unchanged. Second, for the whole
  run with a batch capacity of at least 1 (with a smaller one no row is ever read): the
  driver ends, having consumed some first \<open>k\<close> rows of the reader's output;
  \<^verbatim>\<open>total_rows_parsed\<close> is the number of those rows that validate, the validation
  output lists exactly those that fail, each with its error, and the inserted batches
  hold records of rows that validate only. When no limit is set, every insert succeeds
  and the reader raises nothing, all rows are consumed and the driver returns.
\<close>

theorem failed_rows_are_skipped:
  assumes "rows = yielded (create_csv_records_iterator_from_zip_file csv)"
  shows "(rows_count_in_current_batch st < batch_size \<and> validate d = Inl e \<longrightarrow>
      migrate_loop validate commit_ok batch_size mx (Inr d # it) st
        = migrate_loop validate commit_ok batch_size mx it
            (st\<lparr>stdout := stdout st @
               [Progress (total_rows_parsed st), PrintError e, PrintRow d, PrintSeparator]\<rparr>))
   \<and> (0 < batch_size \<longrightarrow>
       (\<exists>oc k. migrate_craigslist_records_csv_from_zip_to_db validate commit_ok batch_size mx csv
                 = Some oc
          \<and> k \<le> length rows
          \<and> total_rows_parsed (final_state oc)
               = int (length (valid_records validate (take k rows)))
          \<and> validation_log (stdout (final_state oc)) = failure_prints validate (take k rows)
          \<and> set (concat (insert_calls (final_state oc)))
               \<subseteq> set (valid_records validate (take k rows))
          \<and> (mx = None \<and> (\<forall>b. commit_ok b)
                \<and> create_csv_records_iterator_from_zip_file csv = map Inr rows \<longrightarrow>
              k = length rows \<and> oc = Returned (final_state oc))))"
proof (intro conjI impI)
  assume "rows_count_in_current_batch st < batch_size \<and> validate d = Inl e"
  then have "migrate_loop validate commit_ok batch_size mx (Inr d # it) st
        = migrate_loop validate commit_ok batch_size mx it (reject e d st)"
    by (simp add: loop_invalid)
  also have "reject e d st = st\<lparr>stdout := stdout st @
               [Progress (total_rows_parsed st), PrintError e, PrintRow d, PrintSeparator]\<rparr>"
    by (simp add: state_defs)
  finally show "migrate_loop validate commit_ok batch_size mx (Inr d # it) st
        = migrate_loop validate commit_ok batch_size mx it
            (st\<lparr>stdout := stdout st @
               [Progress (total_rows_parsed st), PrintError e, PrintRow d, PrintSeparator]\<rparr>)" .
next
  let ?it = "create_csv_records_iterator_from_zip_file csv"
  assume bs: "0 < batch_size"
  from run_consumes [OF bs, of initial_state validate commit_ok mx ?it] bs
  obtain oc k where
    oc: "loop_then_after validate commit_ok batch_size mx ?it initial_state = Some oc"
    and c: "consumed validate ?it k initial_state (final_state oc)"
    and all: "mx = None \<and> (\<forall>b. commit_ok b) \<and> ?it = map Inr (yielded ?it) \<longrightarrow>
             k = length ?it \<and> oc = Returned (final_state oc)"
    by auto
  have "mx = None \<and> (\<forall>b. commit_ok b) \<and> ?it = map Inr rows \<longrightarrow>
              k = length rows \<and> oc = Returned (final_state oc)"
  proof
    assume a: "mx = None \<and> (\<forall>b. commit_ok b) \<and> ?it = map Inr rows"
    with assms have "?it = map Inr (yielded ?it)"
      by simp
    with a all have "k = length ?it \<and> oc = Returned (final_state oc)"
      by blast
    with a show "k = length rows \<and> oc = Returned (final_state oc)"
      by simp
  qed
  with oc c show "\<exists>oc k. migrate_craigslist_records_csv_from_zip_to_db validate commit_ok batch_size mx csv
                 = Some oc
          \<and> k \<le> length rows
          \<and> total_rows_parsed (final_state oc)
               = int (length (valid_records validate (take k rows)))
          \<and> validation_log (stdout (final_state oc)) = failure_prints validate (take k rows)
          \<and> set (concat (insert_calls (final_state oc)))
               \<subseteq> set (valid_records validate (take k rows))
          \<and> (mx = None \<and> (\<forall>b. commit_ok b)
                \<and> create_csv_records_iterator_from_zip_file csv = map Inr rows \<longrightarrow>
              k = length rows \<and> oc = Returned (final_state oc))"
    unfolding migrate_eq consumed_def assms
    by (intro exI [of _ oc] exI [of _ k]) simp
qed

text \<open>
  Claim C5, at a run whose second data row has no integer in the cylinders column, with
  batch capacity 2.
\<close>

theorem failed_rows_are_skipped_witness:
  "migrate_loop cylinders_required (\<lambda>b. True) 2 None
       [Inr [(''cylinders'', PyNone)], Inr [(''cylinders'', PyInt 6)]] initial_state
     = migrate_loop cylinders_required (\<lambda>b. True) 2 None [Inr [(''cylinders'', PyInt 6)]]
         (initial_state\<lparr>stdout := stdout initial_state @
            [Progress (total_rows_parsed initial_state),
             PrintError ''cylinders: an integer is required'',
             PrintRow [(''cylinders'', PyNone)], PrintSeparator]\<rparr>)
   \<and> (\<exists>st. migrate_craigslist_records_csv_from_zip_to_db cylinders_required (\<lambda>b. True) 2 None
            [[''cylinders''], [''4''], [''x''], [''6'']] = Some (Returned st)
        \<and> total_rows_parsed st = 2
        \<and> validation_log (stdout st) =
             [PrintError ''cylinders: an integer is required'',
              PrintRow [(''cylinders'', PyNone)], PrintSeparator]
        \<and> set (concat (insert_calls st))
             \<subseteq> {[(''cylinders'', PyInt 4)], [(''cylinders'', PyInt 6)]})"
proof -
  let ?csv = "[[''cylinders''], [''4''], [''x''], [''6'']]"
  let ?rows = "[[(''cylinders'', PyInt 4)], [(''cylinders'', PyNone)], [(''cylinders'', PyInt 6)]]"
  have it: "create_csv_records_iterator_from_zip_file ?csv = map Inr ?rows"
    by (simp add: eval_defs)
  then have rows: "?rows = yielded (create_csv_records_iterator_from_zip_file ?csv)"
    by simp
  have f: "cylinders_required [(''cylinders'', PyNone)] = Inl ''cylinders: an integer is required''"
    by (simp add: cylinders_required_def)
  have v: "valid_records cylinders_required ?rows
      = [[(''cylinders'', PyInt 4)], [(''cylinders'', PyInt 6)]]"
    and p: "failure_prints cylinders_required ?rows
      = [PrintError ''cylinders: an integer is required'',
         PrintRow [(''cylinders'', PyNone)], PrintSeparator]"
    by (simp_all add: cylinders_required_def)
  note w = failed_rows_are_skipped [OF rows, of initial_state 2 cylinders_required
      "[(''cylinders'', PyNone)]" "''cylinders: an integer is required''" "\<lambda>b. True" None
      "[Inr [(''cylinders'', PyInt 6)]]"]
  from w f have 1: "migrate_loop cylinders_required (\<lambda>b. True) 2 None
       [Inr [(''cylinders'', PyNone)], Inr [(''cylinders'', PyInt 6)]] initial_state
     = migrate_loop cylinders_required (\<lambda>b. True) 2 None [Inr [(''cylinders'', PyInt 6)]]
         (initial_state\<lparr>stdout := stdout initial_state @
            [Progress (total_rows_parsed initial_state),
             PrintError ''cylinders: an integer is required'',
             PrintRow [(''cylinders'', PyNone)], PrintSeparator]\<rparr>)"
    by simp
  from w it obtain oc k where
    m: "migrate_craigslist_records_csv_from_zip_to_db cylinders_required (\<lambda>b. True) 2 None ?csv = Some oc"
    and tp: "total_rows_parsed (final_state oc) = int (length (valid_records cylinders_required (take k ?rows)))"
    and vl: "validation_log (stdout (final_state oc)) = failure_prints cylinders_required (take k ?rows)"
    and ss: "set (concat (insert_calls (final_state oc))) \<subseteq> set (valid_records cylinders_required (take k ?rows))"
    and k: "k = length ?rows \<and> oc = Returned (final_state oc)"
    by auto
  from k have t: "take k ?rows = ?rows"
    by simp
  from k m have m': "migrate_craigslist_records_csv_from_zip_to_db cylinders_required (\<lambda>b. True) 2 None ?csv
       = Some (Returned (final_state oc))"
    by simp
  from tp have tp': "total_rows_parsed (final_state oc) = 2"
    unfolding t v by simp
  from vl have vl': "validation_log (stdout (final_state oc)) =
             [PrintError ''cylinders: an integer is required'',
              PrintRow [(''cylinders'', PyNone)], PrintSeparator]"
    unfolding t p .
  from ss have ss': "set (concat (insert_calls (final_state oc)))
             \<subseteq> {[(''cylinders'', PyInt 4)], [(''cylinders'', PyInt 6)]}"
    unfolding t v by simp
  from m' tp' vl' ss' have "\<exists>st. migrate_craigslist_records_csv_from_zip_to_db cylinders_required (\<lambda>b. True) 2 None
            ?csv = Some (Returned st)
        \<and> total_rows_parsed st = 2
        \<and> validation_log (stdout st) =
             [PrintError ''cylinders: an integer is required'',
              PrintRow [(''cylinders'', PyNone)], PrintSeparator]
        \<and> set (concat (insert_calls st))
             \<subseteq> {[(''cylinders'', PyInt 4)], [(''cylinders'', PyInt 6)]}"
    by blast
  with 1 show ?thesis
    by blast
qed

lemma run_valid_rows:
  "map validate ds = map Inr rs \<Longrightarrow>
   rows_count_in_current_batch st + int (length ds) \<le> bs \<Longrightarrow>
   \<exists>out. loop_then_after validate commit_ok bs mx (map Inr ds @ it) st
     = loop_then_after validate commit_ok bs mx it
         (st\<lparr>current_batch := current_batch st @ rs,
             rows_count_in_current_batch := rows_count_in_current_batch st + int (length ds),
             total_rows_parsed := total_rows_parsed st + int (length ds),
             stdout := out\<rparr>)"
proof (induction ds arbitrary: rs st)
  case Nil
  then show ?case
    by (auto intro!: exI [of _ "stdout st"])
next
  case (Cons d ds)
  from Cons.prems(1) obtain r rs' where rs: "rs = r # rs'" and r: "validate d = Inr r"
    and rs': "map validate ds = map Inr rs'"
    by (cases rs) auto
  from Cons.prems(2) have "rows_count_in_current_batch st < bs"
    and "rows_count_in_current_batch (accept r st) + int (length ds) \<le> bs"
    by (simp_all add: state_defs)
  from Cons.IH [OF rs' this(2)] this(1) r show ?case
    by (simp add: run_valid rs) (auto simp: state_defs add.assoc)
qed

text \<open>
  Claim C1, amended. The limit is looked at only in the branch that flushes a full batch.
  For an input of \<open>N\<close> rows that all validate, with \<^verbatim>\<open>max_rows_to_parse\<close> = 3 and batch
  capacity 10, the driver returns having parsed \<open>min N 10\<close> rows. When \<open>N < 10\<close> it
  performs exactly one flush, of all \<open>N\<close> rows (none when there is no row); when
  \<open>N \<ge> 10\<close> it stops reading after 10 rows, and its first insert call holds these 10 rows.
\<close>

theorem limit_checked_only_after_full_batch:
  assumes "create_csv_records_iterator_from_zip_file csv = map Inr ds"
    and "map validate ds = map Inr rs"
  shows "\<exists>st. migrate_craigslist_records_csv_from_zip_to_db validate (\<lambda>b. True) 10 (Some 3) csv
             = Some (Returned st)
     \<and> total_rows_parsed st = int (min (length ds) 10)
     \<and> (length ds < 10 \<longrightarrow> insert_calls st = (if ds = [] then [] else [rs]))
     \<and> (10 \<le> length ds \<longrightarrow> insert_calls st \<noteq> [] \<and> hd (insert_calls st) = take 10 rs)"
proof (cases "length ds < 10")
  case True
  from assms(2) have len: "length ds = length rs"
    using map_eq_imp_length_eq by blast
  from True have "rows_count_in_current_batch initial_state + int (length ds) \<le> 10"
    by simp
  from run_valid_rows [OF assms(2) this, of "\<lambda>b. True" "Some 3" "[]"] obtain out where
    "loop_then_after validate (\<lambda>b. True) 10 (Some 3) (map Inr ds) initial_state
     = loop_then_after validate (\<lambda>b. True) 10 (Some 3) []
         (initial_state\<lparr>current_batch := current_batch initial_state @ rs,
             rows_count_in_current_batch :=
               rows_count_in_current_batch initial_state + int (length ds),
             total_rows_parsed := total_rows_parsed initial_state + int (length ds),
             stdout := out\<rparr>)"
    by auto
  with True len assms(1) show ?thesis
    by (simp add: migrate_eq run_stop after_loop_eq) (auto simp: state_defs)
next
  case False
  let ?ds1 = "take 10 ds" and ?ds2 = "drop 10 ds"
  from assms(2) have len: "length ds = length rs"
    using map_eq_imp_length_eq by blast
  from assms(2) have v1: "map validate ?ds1 = map Inr (take 10 rs)"
    by (simp add: take_map [symmetric])
  from False have l1: "length ?ds1 = 10"
    by simp
  then have "rows_count_in_current_batch initial_state + int (length ?ds1) \<le> 10"
    by simp
  from run_valid_rows [OF v1 this, of "\<lambda>b. True" "Some 3" "map Inr ?ds2"] obtain out where
    "loop_then_after validate (\<lambda>b. True) 10 (Some 3) (map Inr ?ds1 @ map Inr ?ds2) initial_state
     = loop_then_after validate (\<lambda>b. True) 10 (Some 3) (map Inr ?ds2)
         (initial_state\<lparr>current_batch := current_batch initial_state @ take 10 rs,
             rows_count_in_current_batch :=
               rows_count_in_current_batch initial_state + int (length ?ds1),
             total_rows_parsed := total_rows_parsed initial_state + int (length ?ds1),
             stdout := out\<rparr>)"
    by auto
  moreover have "map Inr ?ds1 @ map Inr ?ds2 = (map Inr ds :: (error + pyval dict) list)"
    by (simp add: map_append [symmetric] del: map_append)
  moreover from False len have "take 10 rs \<noteq> []"
    by auto
  ultimately show ?thesis
    using False l1 assms(1)
    by (simp add: migrate_eq run_flush after_loop_eq limit_reached_def) (auto simp: state_defs)
qed

text \<open>
  Claim C1 as stated fails on five valid rows: with \<^verbatim>\<open>max_rows_to_parse\<close> = 3 and batch
  capacity 10 the driver parses all five rows and flushes one batch of size 5.
\<close>

theorem limit_three_capacity_ten_counterexample:
  "map_option (total_rows_parsed \<circ> final_state)
     (migrate_craigslist_records_csv_from_zip_to_db cylinders_required (\<lambda>b. True) 10 (Some 3)
        [[''cylinders''], [''1''], [''2''], [''3''], [''4''], [''5'']])
   = Some 5
   \<and> map_option (map length \<circ> insert_calls \<circ> final_state)
     (migrate_craigslist_records_csv_from_zip_to_db cylinders_required (\<lambda>b. True) 10 (Some 3)
        [[''cylinders''], [''1''], [''2''], [''3''], [''4''], [''5'']])
   = Some [5]"
  by code_simp

text \<open>
  Claim C1, amended, at four valid rows.
\<close>

theorem limit_checked_only_after_full_batch_witness:
  "\<exists>st. migrate_craigslist_records_csv_from_zip_to_db cylinders_required (\<lambda>b. True) 10 (Some 3)
          [[''cylinders''], [''1''], [''2''], [''3''], [''4'']] = Some (Returned st)
     \<and> total_rows_parsed st = 4
     \<and> insert_calls st =
          [[[(''cylinders'', PyInt 1)], [(''cylinders'', PyInt 2)],
            [(''cylinders'', PyInt 3)], [(''cylinders'', PyInt 4)]]]"
proof -
  let ?csv = "[[''cylinders''], [''1''], [''2''], [''3''], [''4'']]"
  let ?ds = "[[(''cylinders'', PyInt 1)], [(''cylinders'', PyInt 2)], [(''cylinders'', PyInt 3)],
              [(''cylinders'', PyInt 4)]]"
  have r: "create_csv_records_iterator_from_zip_file ?csv = map Inr ?ds"
    by (simp add: eval_defs)
  have v: "map cylinders_required ?ds = map Inr ?ds"
    by (simp add: cylinders_required_def)
  from limit_checked_only_after_full_batch [OF r v] obtain st where
    "migrate_craigslist_records_csv_from_zip_to_db cylinders_required (\<lambda>b. True) 10 (Some 3) ?csv
       = Some (Returned st)"
    and "total_rows_parsed st = int (min (length ?ds) 10)"
    and "length ?ds < 10 \<longrightarrow> insert_calls st = (if ?ds = [] then [] else [?ds])"
    by blast
  then show ?thesis
    by (intro exI [of _ st]) simp
qed

end
